theory Spec2Isabelle
  imports Complex_Main
begin

section \<open>Python values, exceptions and containers\<close>

text \<open>
  The embedding follows \<^verbatim>\<open>src/components/analytics/funnel_dashboard.py\<close>.
  Python integers are \<^typ>\<open>int\<close>. The true division \<^verbatim>\<open>a / b\<close> of two integers
  returns the double nearest to the exact quotient, and raises \<^verbatim>\<open>OverflowError\<close> when
  that double would be infinite; the model keeps the exact quotient in \<^typ>\<open>rat\<close> as the
  value and raises in the same cases. Every implicit exception of the source (a missing
  key, an index out of range, \<^verbatim>\<open>list.index\<close> of an absent value, a zero divisor, a
  quotient beyond the doubles) is the left summand of the result.
\<close>

datatype py_error = KeyError | IndexError | ValueError | ZeroDivisionError | OverflowError

type_synonym int_dict = "string \<rightharpoonup> int"
type_synonym float_dict = "string \<rightharpoonup> rat"

datatype pyval =
    IntV int
  | FloatV rat
  | IntDictV int_dict
  | FloatDictV float_dict

definition bind_err :: "py_error + 'a \<Rightarrow> ('a \<Rightarrow> py_error + 'b) \<Rightarrow> py_error + 'b" where
  "bind_err r f = (case r of Inl e \<Rightarrow> Inl e | Inr v \<Rightarrow> f v)"

text \<open>\<^verbatim>\<open>for x in xs: body\<close> over a state, stopping at the first exception.\<close>

fun for_loop :: "('s \<Rightarrow> 'a \<Rightarrow> py_error + 's) \<Rightarrow> 'a list \<Rightarrow> 's \<Rightarrow> py_error + 's" where
  "for_loop body [] s = Inr s"
| "for_loop body (x # xs) s =
     (case body s x of Inl e \<Rightarrow> Inl e | Inr s' \<Rightarrow> for_loop body xs s')"

text \<open>\<^verbatim>\<open>d.get(key, default)\<close>, on the optional value stored under the key.\<close>

definition get_or :: "'a option \<Rightarrow> 'a \<Rightarrow> 'a" where
  "get_or v d = (case v of None \<Rightarrow> d | Some x \<Rightarrow> x)"

text \<open>\<^verbatim>\<open>d[key]\<close> on a plain dict.\<close>

definition dict_get :: "(string \<rightharpoonup> 'v) \<Rightarrow> string \<Rightarrow> py_error + 'v" where
  "dict_get d k = (case d k of None \<Rightarrow> Inl KeyError | Some v \<Rightarrow> Inr v)"

text \<open>\<^verbatim>\<open>d[key] += 1\<close> on a plain dict.\<close>

definition dict_incr :: "int_dict \<Rightarrow> string \<Rightarrow> py_error + int_dict" where
  "dict_incr d k = (case d k of None \<Rightarrow> Inl KeyError | Some v \<Rightarrow> Inr (d(k \<mapsto> v + 1)))"

text \<open>\<^verbatim>\<open>d[key] += n\<close> on a \<^verbatim>\<open>defaultdict(int)\<close>.\<close>

definition dd_add :: "int_dict \<Rightarrow> string \<Rightarrow> int \<Rightarrow> int_dict" where
  "dd_add d k n = d(k \<mapsto> get_or (d k) 0 + n)"

text \<open>
  \<^verbatim>\<open>d[key].append(x)\<close> on a \<^verbatim>\<open>defaultdict(list)\<close> whose items are iterated
  later: the dict is the list of its items in insertion order, and a missing key is
  inserted last with the empty list before the append.
\<close>

fun dd_append :: "(string \<times> 'a list) list \<Rightarrow> string \<Rightarrow> 'a \<Rightarrow> (string \<times> 'a list) list" where
  "dd_append [] k x = [(k, [] @ [x])]"
| "dd_append ((k', l) # d) k x =
     (if k' = k then (k', l @ [x]) # d else (k', l) # dd_append d k x)"

text \<open>\<^verbatim>\<open>xs[i]\<close> for a non-negative index.\<close>

definition list_get :: "'a list \<Rightarrow> nat \<Rightarrow> py_error + 'a" where
  "list_get xs i = (if i < length xs then Inr (xs ! i) else Inl IndexError)"

text \<open>\<^verbatim>\<open>xs.index(x)\<close>: the first position of \<open>x\<close>.\<close>

fun list_index :: "'a list \<Rightarrow> 'a \<Rightarrow> py_error + nat" where
  "list_index [] x = Inl ValueError"
| "list_index (y # ys) x =
     (if y = x then Inr 0
      else (case list_index ys x of Inl e \<Rightarrow> Inl e | Inr i \<Rightarrow> Inr (Suc i)))"

text \<open>
  The largest double is \<open>2\<^sup>1\<^sup>0\<^sup>2\<^sup>4 - 2\<^sup>9\<^sup>7\<^sup>1\<close>. A quotient rounds to a finite double exactly
  when its absolute value is below the midpoint \<open>2\<^sup>1\<^sup>0\<^sup>2\<^sup>4 - 2\<^sup>9\<^sup>7\<^sup>0\<close> between that double
  and \<open>2\<^sup>1\<^sup>0\<^sup>2\<^sup>4\<close> (the midpoint itself rounds to even, which is up).
\<close>

definition overflow_bound :: int where
  "overflow_bound = 2 ^ 1024 - 2 ^ 970"

definition float_overflow :: "rat \<Rightarrow> bool" where
  "float_overflow q \<longleftrightarrow> of_int overflow_bound \<le> \<bar>q\<bar>"

text \<open>\<^verbatim>\<open>a / b\<close> on integers.\<close>

definition truediv :: "int \<Rightarrow> int \<Rightarrow> py_error + rat" where
  "truediv a b =
     (if b = 0 then Inl ZeroDivisionError
      else if float_overflow (of_int a / of_int b) then Inl OverflowError
      else Inr (of_int a / of_int b))"

section \<open>Stage configuration and session records\<close>

definition STAGE_ORDER :: "string list" where
  "STAGE_ORDER =
     [''widget_activation'', ''search_configuration'', ''room_selection'',
      ''rate_selection'', ''booking_completion'']"

text \<open>
  A session is a dict read only through \<^verbatim>\<open>session.get\<close>; a field is \<open>None\<close> when
  the key is absent.
\<close>

record session =
  property_id :: "string option"
  furthest_stage :: "string option"
  is_completed :: "bool option"
  is_abandoned :: "bool option"
  duration_seconds :: "int option"
  total_events :: "int option"
  navigation_backs :: "int option"

section \<open>\<^verbatim>\<open>calculate_funnel_metrics\<close>\<close>

record loop_state =
  stage_entries :: int_dict
  stage_completions :: int_dict
  stage_abandonments :: int_dict
  stage_durations :: "(string \<times> int list) list"
  navigation_by_stage :: int_dict
  total_completed :: int
  total_abandoned :: int

text \<open>\<^verbatim>\<open>{stage: 0 for stage in STAGE_ORDER}\<close>\<close>

definition zero_counters :: int_dict where
  "zero_counters = map_of (map (\<lambda>stage. (stage, 0)) STAGE_ORDER)"

definition init_state :: loop_state where
  "init_state =
     \<lparr> stage_entries = zero_counters,
       stage_completions = zero_counters,
       stage_abandonments = zero_counters,
       stage_durations = [],
       navigation_by_stage = Map.empty,
       total_completed = 0,
       total_abandoned = 0 \<rparr>"

text \<open>
  The body of \<^verbatim>\<open>for i in range(stage_index + 1)\<close>, on the pair of
  \<^verbatim>\<open>stage_entries\<close> and \<^verbatim>\<open>stage_completions\<close>.
\<close>

definition fill_body :: "bool \<Rightarrow> int_dict \<times> int_dict \<Rightarrow> nat \<Rightarrow> py_error + int_dict \<times> int_dict" where
  "fill_body completed ec i =
     bind_err (list_get STAGE_ORDER i) (\<lambda>stage.
     bind_err (dict_incr (fst ec) stage) (\<lambda>entries.
       if completed then
         bind_err (list_get STAGE_ORDER i) (\<lambda>stage'.
         bind_err (dict_incr (snd ec) stage') (\<lambda>completions.
           Inr (entries, completions)))
       else Inr (entries, snd ec)))"

text \<open>The body of \<^verbatim>\<open>for session in sessions\<close>.\<close>

definition session_body :: "loop_state \<Rightarrow> session \<Rightarrow> py_error + loop_state" where
  "session_body st s =
     (let furthest = get_or (furthest_stage s) ''unknown'';
          completed = get_or (is_completed s) False;
          abandoned = get_or (is_abandoned s) False;
          duration = get_or (duration_seconds s) 0;
          nav_backs = get_or (navigation_backs s) 0;
          st1 = (if completed then st\<lparr>total_completed := total_completed st + 1\<rparr> else st)
      in
      bind_err
        (if abandoned then
           (let st2 = st1\<lparr>total_abandoned := total_abandoned st1 + 1\<rparr> in
            if stage_abandonments st2 furthest \<noteq> None then
              bind_err (dict_incr (stage_abandonments st2) furthest) (\<lambda>d.
                Inr (st2\<lparr>stage_abandonments := d\<rparr>))
            else Inr st2)
         else Inr st1)
        (\<lambda>st3.
          if furthest \<in> set STAGE_ORDER then
            bind_err (list_index STAGE_ORDER furthest) (\<lambda>stage_index.
            bind_err (for_loop (fill_body completed) [0..<stage_index + 1]
                        (stage_entries st3, stage_completions st3)) (\<lambda>ec.
              let st4 = st3\<lparr>stage_entries := fst ec, stage_completions := snd ec\<rparr>;
                  st5 = st4\<lparr>stage_durations := dd_append (stage_durations st4) furthest duration\<rparr>
              in
              Inr (if nav_backs > 0
                   then st5\<lparr>navigation_by_stage :=
                               dd_add (navigation_by_stage st5) furthest nav_backs\<rparr>
                   else st5)))
          else Inr st3))"

text \<open>The body of \<^verbatim>\<open>for i in range(len(STAGE_ORDER) - 1)\<close>.\<close>

definition conversion_body :: "int_dict \<Rightarrow> float_dict \<Rightarrow> nat \<Rightarrow> py_error + float_dict" where
  "conversion_body entries rates i =
     bind_err (list_get STAGE_ORDER i) (\<lambda>from_stage.
     bind_err (list_get STAGE_ORDER (i + 1)) (\<lambda>to_stage.
     bind_err (dict_get entries from_stage) (\<lambda>n_from.
       if n_from > 0 then
         bind_err (dict_get entries to_stage) (\<lambda>n_to.
         bind_err (dict_get entries from_stage) (\<lambda>n_from'.
         bind_err (truediv n_to n_from') (\<lambda>q.
           Inr (rates(from_stage @ ''_to_'' @ to_stage \<mapsto> q)))))
       else Inr rates)))"

text \<open>
  The body of \<^verbatim>\<open>for stage, durations in stage_durations.items()\<close>, on
  \<^verbatim>\<open>avg_durations\<close>.
\<close>

definition average_body :: "float_dict \<Rightarrow> string \<times> int list \<Rightarrow> py_error + float_dict" where
  "average_body avg item =
     (let stage = fst item; durations = snd item in
      if durations \<noteq> [] then
        bind_err (truediv (sum_list durations) (int (length durations))) (\<lambda>q.
          Inr (avg(stage \<mapsto> q)))
      else Inr avg)"

definition calculate_funnel_metrics :: "session list \<Rightarrow> py_error + (string \<rightharpoonup> pyval)" where
  "calculate_funnel_metrics ss =
     (if ss = [] then Inr Map.empty
      else
        bind_err (for_loop session_body ss init_state) (\<lambda>st.
        bind_err (for_loop (conversion_body (stage_entries st)) [0..<length STAGE_ORDER - 1]
                    Map.empty) (\<lambda>conversion_rates.
        bind_err (dict_get (stage_entries st) ''widget_activation'') (\<lambda>n_widget.
        bind_err (if n_widget > 0
                  then bind_err (dict_get (stage_entries st) ''widget_activation'') (\<lambda>n.
                       bind_err (truediv (total_completed st) n) (\<lambda>q. Inr (FloatV q)))
                  else Inr (IntV 0)) (\<lambda>overall_conversion.
        bind_err (for_loop average_body (stage_durations st) Map.empty) (\<lambda>avg_durations.
          Inr [''total_sessions'' \<mapsto> IntV (int (length ss)),
               ''completed_sessions'' \<mapsto> IntV (total_completed st),
               ''abandoned_sessions'' \<mapsto> IntV (total_abandoned st),
               ''overall_conversion'' \<mapsto> overall_conversion,
               ''stage_entries'' \<mapsto> IntDictV (stage_entries st),
               ''stage_completions'' \<mapsto> IntDictV (stage_completions st),
               ''stage_abandonments'' \<mapsto> IntDictV (stage_abandonments st),
               ''conversion_rates'' \<mapsto> FloatDictV conversion_rates,
               ''avg_durations'' \<mapsto> FloatDictV avg_durations,
               ''navigation_by_stage'' \<mapsto> IntDictV (navigation_by_stage st)]))))))"

text \<open>Reading one key of the returned dict, \<open>None\<close> when the key is absent or the call raised.\<close>

definition metric :: "py_error + (string \<rightharpoonup> pyval) \<Rightarrow> string \<Rightarrow> pyval option" where
  "metric r key = (case r of Inl e \<Rightarrow> None | Inr m \<Rightarrow> m key)"


section \<open>\<^verbatim>\<open>display_abandonment_analysis\<close>: the two frequency tables\<close>

record abandonment_tables =
  abandonment_reasons :: int_dict
  abandonment_stages :: int_dict

text \<open>The body of \<^verbatim>\<open>for session in sessions\<close>; both tables are \<^verbatim>\<open>defaultdict(int)\<close>.\<close>

definition abandonment_body :: "abandonment_tables \<Rightarrow> session \<Rightarrow> abandonment_tables" where
  "abandonment_body t s =
     (if get_or (is_abandoned s) False then
        (let stage = get_or (furthest_stage s) ''unknown'';
             t1 = t\<lparr>abandonment_stages := dd_add (abandonment_stages t) stage 1\<rparr>;
             nav_backs = get_or (navigation_backs s) 0;
             duration = get_or (duration_seconds s) 0;
             events = get_or (total_events s) 0
         in
         if nav_backs > 3 then
           t1\<lparr>abandonment_reasons := dd_add (abandonment_reasons t1) ''Excessive Navigation'' 1\<rparr>
         else if duration < 30 then
           t1\<lparr>abandonment_reasons := dd_add (abandonment_reasons t1) ''Quick Bounce'' 1\<rparr>
         else if events < 5 then
           t1\<lparr>abandonment_reasons := dd_add (abandonment_reasons t1) ''Low Engagement'' 1\<rparr>
         else
           t1\<lparr>abandonment_reasons := dd_add (abandonment_reasons t1) ''Other/Timeout'' 1\<rparr>)
      else t)"

text \<open>The tables as they stand when the loop ends, before anything is printed.\<close>

definition abandonment_analysis :: "session list \<Rightarrow> abandonment_tables" where
  "abandonment_analysis ss =
     foldl abandonment_body
       \<lparr>abandonment_reasons = Map.empty, abandonment_stages = Map.empty\<rparr> ss"

section \<open>\<^verbatim>\<open>display_property_comparison\<close>: the per-property table\<close>

record property_row =
  sessions :: int
  completions :: int
  abandonments :: int
  stages :: int_dict

text \<open>The value the \<^verbatim>\<open>defaultdict\<close> creates for a property it has not seen.\<close>

definition default_row :: property_row where
  "default_row = \<lparr>sessions = 0, completions = 0, abandonments = 0, stages = Map.empty\<rparr>"

text \<open>
  \<^verbatim>\<open>property_metrics[prop][field] += ...\<close>: the dict keeps its keys in insertion
  order, and a key that is missing is inserted last with the default row.
\<close>

fun row_update ::
  "(property_row \<Rightarrow> property_row) \<Rightarrow> string \<Rightarrow> (string \<times> property_row) list \<Rightarrow>
   (string \<times> property_row) list" where
  "row_update f k [] = [(k, f default_row)]"
| "row_update f k ((k', r) # rows) =
     (if k' = k then (k', f r) # rows else (k', r) # row_update f k rows)"

definition property_body ::
  "(string \<times> property_row) list \<Rightarrow> session \<Rightarrow> (string \<times> property_row) list" where
  "property_body pm s =
     (let prop = get_or (property_id s) ''Unknown'';
          pm1 = row_update (\<lambda>r. r\<lparr>sessions := sessions r + 1\<rparr>) prop pm;
          pm2 = (if get_or (is_completed s) False
                 then row_update (\<lambda>r. r\<lparr>completions := completions r + 1\<rparr>) prop pm1
                 else pm1);
          pm3 = (if get_or (is_abandoned s) False
                 then row_update (\<lambda>r. r\<lparr>abandonments := abandonments r + 1\<rparr>) prop pm2
                 else pm2);
          stage = get_or (furthest_stage s) ''unknown''
      in
      if stage \<in> set STAGE_ORDER
      then row_update (\<lambda>r. r\<lparr>stages := dd_add (stages r) stage 1\<rparr>) prop pm3
      else pm3)"

definition property_metrics :: "session list \<Rightarrow> (string \<times> property_row) list" where
  "property_metrics ss = foldl property_body [] ss"

text \<open>The per-property session counts, summed over all properties.\<close>

definition session_count_sum :: "(string \<times> property_row) list \<Rightarrow> int" where
  "session_count_sum pm = sum_list (map (sessions \<circ> snd) pm)"

text \<open>The session count of one property, 0 for a property the table does not hold.\<close>

definition session_count :: "(string \<times> property_row) list \<Rightarrow> string \<Rightarrow> int" where
  "session_count pm p = (case map_of pm p of None \<Rightarrow> 0 | Some r \<Rightarrow> sessions r)"

section \<open>Reading the results\<close>

text \<open>\<^verbatim>\<open>metrics[key][k]\<close> for a dict of counts, and for a dict of ratios.\<close>

definition int_entry :: "py_error + (string \<rightharpoonup> pyval) \<Rightarrow> string \<Rightarrow> string \<Rightarrow> int option" where
  "int_entry r key k = (case metric r key of Some (IntDictV d) \<Rightarrow> d k | _ \<Rightarrow> None)"

definition float_entry :: "py_error + (string \<rightharpoonup> pyval) \<Rightarrow> string \<Rightarrow> string \<Rightarrow> rat option" where
  "float_entry r key k = (case metric r key of Some (FloatDictV d) \<Rightarrow> d k | _ \<Rightarrow> None)"

text \<open>The number a scalar metric holds, for a Python \<^verbatim>\<open>int\<close> or \<^verbatim>\<open>float\<close>.\<close>

definition number_metric :: "py_error + (string \<rightharpoonup> pyval) \<Rightarrow> string \<Rightarrow> rat option" where
  "number_metric r key =
     (case metric r key of Some (IntV n) \<Rightarrow> Some (of_int n) | Some (FloatV q) \<Rightarrow> Some q
      | _ \<Rightarrow> None)"

section \<open>The session loop as a fold\<close>

text \<open>
  What one session adds to each accumulator, written without exceptions. The lemmas
  below show that the loop body computes exactly this whenever the three counter dicts
  have the keys of \<^const>\<open>STAGE_ORDER\<close>, which the initial state has and every step keeps.
\<close>

definition stage_of :: "session \<Rightarrow> string" where
  "stage_of s = get_or (furthest_stage s) ''unknown''"

definition completed_of :: "session \<Rightarrow> bool" where
  "completed_of s = get_or (is_completed s) False"

definition abandoned_of :: "session \<Rightarrow> bool" where
  "abandoned_of s = get_or (is_abandoned s) False"

definition duration_of :: "session \<Rightarrow> int" where
  "duration_of s = get_or (duration_seconds s) 0"

definition nav_backs_of :: "session \<Rightarrow> int" where
  "nav_backs_of s = get_or (navigation_backs s) 0"

definition reached :: "string \<Rightarrow> session \<Rightarrow> bool" where
  "reached k s =
     (case list_index STAGE_ORDER (stage_of s) of
        Inl e \<Rightarrow> False
      | Inr j \<Rightarrow> k \<in> set (take (j + 1) STAGE_ORDER))"

definition bump :: "int_dict \<Rightarrow> (string \<Rightarrow> bool) \<Rightarrow> int_dict" where
  "bump d P = (\<lambda>k. if P k then Some (get_or (d k) 0 + 1) else d k)"

definition entries_step :: "int_dict \<Rightarrow> session \<Rightarrow> int_dict" where
  "entries_step d s = bump d (\<lambda>k. reached k s)"

definition completions_step :: "int_dict \<Rightarrow> session \<Rightarrow> int_dict" where
  "completions_step d s = bump d (\<lambda>k. completed_of s \<and> reached k s)"

definition abandonments_step :: "int_dict \<Rightarrow> session \<Rightarrow> int_dict" where
  "abandonments_step d s = bump d (\<lambda>k. abandoned_of s \<and> k = stage_of s \<and> k \<in> set STAGE_ORDER)"

definition durations_step :: "(string \<times> int list) list \<Rightarrow> session \<Rightarrow> (string \<times> int list) list" where
  "durations_step d s =
     (if stage_of s \<in> set STAGE_ORDER then dd_append d (stage_of s) (duration_of s) else d)"

definition navigation_step :: "int_dict \<Rightarrow> session \<Rightarrow> int_dict" where
  "navigation_step d s =
     (if stage_of s \<in> set STAGE_ORDER \<and> nav_backs_of s > 0
      then dd_add d (stage_of s) (nav_backs_of s) else d)"

definition pure_step :: "loop_state \<Rightarrow> session \<Rightarrow> loop_state" where
  "pure_step st s =
     st\<lparr> stage_entries := entries_step (stage_entries st) s,
         stage_completions := completions_step (stage_completions st) s,
         stage_abandonments := abandonments_step (stage_abandonments st) s,
         stage_durations := durations_step (stage_durations st) s,
         navigation_by_stage := navigation_step (navigation_by_stage st) s,
         total_completed := total_completed st + (if completed_of s then 1 else 0),
         total_abandoned := total_abandoned st + (if abandoned_of s then 1 else 0) \<rparr>"

definition keys_ok :: "loop_state \<Rightarrow> bool" where
  "keys_ok st \<longleftrightarrow>
     dom (stage_entries st) = set STAGE_ORDER \<and>
     dom (stage_completions st) = set STAGE_ORDER \<and>
     dom (stage_abandonments st) = set STAGE_ORDER"

definition count_sessions :: "(session \<Rightarrow> bool) \<Rightarrow> session list \<Rightarrow> int" where
  "count_sessions P ss = int (length (filter P ss))"

definition final_state :: "session list \<Rightarrow> loop_state" where
  "final_state ss = foldl pure_step init_state ss"

definition rate_key :: "nat \<Rightarrow> string" where
  "rate_key i = STAGE_ORDER ! i @ ''_to_'' @ STAGE_ORDER ! (i + 1)"

definition conversion_pure :: "int_dict \<Rightarrow> float_dict \<Rightarrow> nat \<Rightarrow> float_dict" where
  "conversion_pure entries rates i =
     (if get_or (entries (STAGE_ORDER ! i)) 0 > 0
      then rates(rate_key i \<mapsto>
             of_int (get_or (entries (STAGE_ORDER ! (i + 1))) 0) /
             of_int (get_or (entries (STAGE_ORDER ! i)) 0))
      else rates)"

definition overall_pure :: "loop_state \<Rightarrow> pyval" where
  "overall_pure st =
     (if get_or (stage_entries st ''widget_activation'') 0 > 0
      then FloatV (of_int (total_completed st) /
                   of_int (get_or (stage_entries st ''widget_activation'') 0))
      else IntV 0)"

text \<open>The mean of one item of \<^verbatim>\<open>stage_durations\<close>, and the dict of the means.\<close>

definition mean_of :: "int list \<Rightarrow> rat" where
  "mean_of durations = of_int (sum_list durations) / of_int (int (length durations))"

definition average_pure :: "float_dict \<Rightarrow> string \<times> int list \<Rightarrow> float_dict" where
  "average_pure avg item = (if snd item \<noteq> [] then avg(fst item \<mapsto> mean_of (snd item)) else avg)"

text \<open>The two places where a quotient can leave the range of the doubles.\<close>

definition overall_overflows :: "loop_state \<Rightarrow> bool" where
  "overall_overflows st \<longleftrightarrow>
     get_or (stage_entries st ''widget_activation'') 0 > 0 \<and>
     float_overflow (of_int (total_completed st) /
                     of_int (get_or (stage_entries st ''widget_activation'') 0))"

definition average_overflows :: "(string \<times> int list) list \<Rightarrow> bool" where
  "average_overflows items \<longleftrightarrow>
     list_ex (\<lambda>item. snd item \<noteq> [] \<and> float_overflow (mean_of (snd item))) items"

text \<open>
  Inputs well inside the doubles: fewer sessions than the overflow bound, and every
  duration below it in absolute value.
\<close>

definition in_float_range :: "session list \<Rightarrow> bool" where
  "in_float_range ss \<longleftrightarrow>
     \<not> float_overflow (of_int (int (length ss))) \<and>
     list_all (\<lambda>s. \<not> float_overflow (of_int (duration_of s))) ss"

definition result_dict :: "loop_state \<Rightarrow> nat \<Rightarrow> (string \<rightharpoonup> pyval)" where
  "result_dict st n =
     [''total_sessions'' \<mapsto> IntV (int n),
      ''completed_sessions'' \<mapsto> IntV (total_completed st),
      ''abandoned_sessions'' \<mapsto> IntV (total_abandoned st),
      ''overall_conversion'' \<mapsto> overall_pure st,
      ''stage_entries'' \<mapsto> IntDictV (stage_entries st),
      ''stage_completions'' \<mapsto> IntDictV (stage_completions st),
      ''stage_abandonments'' \<mapsto> IntDictV (stage_abandonments st),
      ''conversion_rates'' \<mapsto>
         FloatDictV (foldl (conversion_pure (stage_entries st)) Map.empty [0..<4]),
      ''avg_durations'' \<mapsto> FloatDictV (foldl average_pure Map.empty (stage_durations st)),
      ''navigation_by_stage'' \<mapsto> IntDictV (navigation_by_stage st)]"

section \<open>The abandonment classifier as the specification words it\<close>

datatype reason_category = ExcessiveNavigation | QuickBounce | LowEngagement | OtherTimeout

text \<open>
  The decision order of the specification: the first rule that matches decides. The
  fields are read as the source reads them, an absent key counting as \<open>0\<close>.
\<close>

definition classify :: "session \<Rightarrow> reason_category" where
  "classify s =
     (if get_or (navigation_backs s) 0 > 3 then ExcessiveNavigation
      else if get_or (duration_seconds s) 0 < 30 then QuickBounce
      else if get_or (total_events s) 0 < 5 then LowEngagement
      else OtherTimeout)"

text \<open>The key under which the source counts each category.\<close>

fun reason_label :: "reason_category \<Rightarrow> string" where
  "reason_label ExcessiveNavigation = ''Excessive Navigation''"
| "reason_label QuickBounce = ''Quick Bounce''"
| "reason_label LowEngagement = ''Low Engagement''"
| "reason_label OtherTimeout = ''Other/Timeout''"

section \<open>Example inputs\<close>

definition example_session :: "string \<Rightarrow> bool \<Rightarrow> bool \<Rightarrow> session" where
  "example_session stage completed abandoned =
     \<lparr> property_id = Some ''hotel-a'',
       furthest_stage = Some stage,
       is_completed = Some completed,
       is_abandoned = Some abandoned,
       duration_seconds = Some 10,
       total_events = Some 2,
       navigation_backs = Some 0 \<rparr>"

text \<open>One completed session each at room selection, rate selection and booking completion.\<close>

definition three_completed :: "session list" where
  "three_completed =
     [example_session ''room_selection'' True False,
      example_session ''rate_selection'' True False,
      example_session ''booking_completion'' True False]"

definition widget_only :: "session list" where
  "widget_only = [example_session ''widget_activation'' False False]"

text \<open>One session at widget activation, and two completed sessions with no stage.\<close>

definition completed_outside :: "session list" where
  "completed_outside =
     [example_session ''widget_activation'' False False,
      example_session ''unknown'' True False,
      example_session ''unknown'' True False]"

text \<open>
  Ten sessions: five reach widget activation only, one completes the booking, and four
  have no stage.
\<close>

definition ten_sessions :: "session list" where
  "ten_sessions =
     replicate 5 (example_session ''widget_activation'' False False) @
     [example_session ''booking_completion'' True False] @
     replicate 4 (example_session ''unknown'' False False)"

text \<open>
  Ten sessions: four reach widget activation only, one completes the booking, and five
  have no stage.
\<close>

definition ten_sessions_five_entered :: "session list" where
  "ten_sessions_five_entered =
     replicate 4 (example_session ''widget_activation'' False False) @
     [example_session ''booking_completion'' True False] @
     replicate 5 (example_session ''unknown'' False False)"

text \<open>A session at rate selection that is flagged both completed and abandoned.\<close>

definition both_flags :: session where
  "both_flags = example_session ''rate_selection'' True True"

text \<open>A completed and abandoned session whose \<^verbatim>\<open>furthest_stage\<close> is \<^verbatim>\<open>'unknown'\<close>.\<close>

definition unknown_session :: session where
  "unknown_session = example_session ''unknown'' True True"

text \<open>
  An abandoned session at rate selection with no navigation back, a duration of 10
  seconds and 2 events.
\<close>

definition quick_session :: session where
  "quick_session = example_session ''rate_selection'' False True"

text \<open>One session at widget activation whose duration is beyond the doubles.\<close>

definition huge_duration :: "session list" where
  "huge_duration =
     [(example_session ''widget_activation'' False False)\<lparr>duration_seconds := Some (10 ^ 309)\<rparr>]"

section \<open>The session loop never raises\<close>

lemma for_loop_append:
  "for_loop body (xs @ ys) s = bind_err (for_loop body xs s) (for_loop body ys)"
  by (induction xs arbitrary: s) (auto simp: bind_err_def split: sum.splits)

lemma dom_stage_keys:
  assumes "dom d = set STAGE_ORDER"
  obtains a0 a1 a2 a3 a4 where
    "d ''widget_activation'' = Some a0" "d ''search_configuration'' = Some a1"
    "d ''room_selection'' = Some a2" "d ''rate_selection'' = Some a3"
    "d ''booking_completion'' = Some a4"
proof -
  have "\<forall>k\<in>set STAGE_ORDER. \<exists>a. d k = Some a"
    using assms by (metis domD)
  then show ?thesis using that by (auto simp: STAGE_ORDER_def)
qed

lemma fill_loop:
  assumes e: "dom e = set STAGE_ORDER" and c: "dom c = set STAGE_ORDER" and n: "n < 5"
  shows "for_loop (fill_body cf) [0..<n + 1] (e, c) =
           Inr (bump e (\<lambda>k. k \<in> set (take (n + 1) STAGE_ORDER)),
                bump c (\<lambda>k. cf \<and> k \<in> set (take (n + 1) STAGE_ORDER)))"
proof -
  obtain a0 a1 a2 a3 a4 where a:
    "e ''widget_activation'' = Some a0" "e ''search_configuration'' = Some a1"
    "e ''room_selection'' = Some a2" "e ''rate_selection'' = Some a3"
    "e ''booking_completion'' = Some a4"
    using e by (rule dom_stage_keys)
  obtain b0 b1 b2 b3 b4 where b:
    "c ''widget_activation'' = Some b0" "c ''search_configuration'' = Some b1"
    "c ''room_selection'' = Some b2" "c ''rate_selection'' = Some b3"
    "c ''booking_completion'' = Some b4"
    using c by (rule dom_stage_keys)
  from n consider "n = 0" | "n = 1" | "n = 2" | "n = 3" | "n = 4" by linarith
  then show ?thesis
  proof cases
    case 1
    then show ?thesis
      by (auto simp: upt_rec fill_body_def bind_err_def list_get_def dict_incr_def a b
          STAGE_ORDER_def bump_def get_or_def fun_eq_iff)
  next
    case 2
    then show ?thesis
      by (auto simp: upt_rec fill_body_def bind_err_def list_get_def dict_incr_def a b
          STAGE_ORDER_def bump_def get_or_def fun_eq_iff)
  next
    case 3
    then show ?thesis
      by (auto simp: upt_rec fill_body_def bind_err_def list_get_def dict_incr_def a b
          STAGE_ORDER_def bump_def get_or_def fun_eq_iff)
  next
    case 4
    then show ?thesis
      by (auto simp: upt_rec fill_body_def bind_err_def list_get_def dict_incr_def a b
          STAGE_ORDER_def bump_def get_or_def fun_eq_iff)
  next
    case 5
    then show ?thesis
      by (auto simp: upt_rec fill_body_def bind_err_def list_get_def dict_incr_def a b
          STAGE_ORDER_def bump_def get_or_def fun_eq_iff)
  qed
qed

lemma list_index_absent: "x \<notin> set xs \<Longrightarrow> list_index xs x = Inl ValueError"
  by (induction xs) auto

lemma list_index_present: "x \<in> set xs \<Longrightarrow> \<exists>j<length xs. list_index xs x = Inr j"
  by (induction xs) auto

lemma abandonments_step_hit:
  "abandoned_of s \<Longrightarrow> stage_of s \<in> set STAGE_ORDER \<Longrightarrow> d (stage_of s) = Some v \<Longrightarrow>
   abandonments_step d s = d(stage_of s \<mapsto> v + 1)"
  by (auto simp: abandonments_step_def bump_def get_or_def fun_eq_iff)

lemma abandonments_step_miss:
  "\<not> abandoned_of s \<or> stage_of s \<notin> set STAGE_ORDER \<Longrightarrow> abandonments_step d s = d"
  by (auto simp: abandonments_step_def bump_def fun_eq_iff)

lemma steps_unknown:
  assumes "stage_of s \<notin> set STAGE_ORDER"
  shows "entries_step d s = d" "completions_step d s = d"
    "durations_step ds s = ds" "navigation_step d s = d"
  using assms
  by (auto simp: entries_step_def completions_step_def durations_step_def navigation_step_def
      reached_def list_index_absent bump_def fun_eq_iff)

lemma steps_known:
  assumes "list_index STAGE_ORDER (stage_of s) = Inr j"
  shows "entries_step d s = bump d (\<lambda>k. k \<in> set (take (j + 1) STAGE_ORDER))"
    "completions_step d s = bump d (\<lambda>k. completed_of s \<and> k \<in> set (take (j + 1) STAGE_ORDER))"
  using assms by (simp_all add: entries_step_def completions_step_def reached_def)

lemma body_pure:
  assumes "keys_ok st"
  shows "session_body st s = Inr (pure_step st s)"
proof -
  have e: "dom (stage_entries st) = set STAGE_ORDER"
    and c: "dom (stage_completions st) = set STAGE_ORDER"
    and a: "dom (stage_abandonments st) = set STAGE_ORDER"
    using assms by (simp_all add: keys_ok_def)
  have ab: "stage_abandonments st k \<noteq> None \<longleftrightarrow> k \<in> set STAGE_ORDER" for k
    using a by (auto simp: dom_def)
  note folds = stage_of_def [symmetric] completed_of_def [symmetric] abandoned_of_def [symmetric]
    duration_of_def [symmetric] nav_backs_of_def [symmetric]
  show ?thesis
  proof (cases "stage_of s \<in> set STAGE_ORDER")
    case False
    then have n: "stage_abandonments st (stage_of s) = None"
      using ab by blast
    show ?thesis
      using False n
      by (simp add: session_body_def pure_step_def Let_def bind_err_def folds
          steps_unknown abandonments_step_miss)
  next
    case True
    then obtain j where j: "j < 5" "list_index STAGE_ORDER (stage_of s) = Inr j"
      using list_index_present [of "stage_of s" STAGE_ORDER] by (auto simp: STAGE_ORDER_def)
    from True obtain v where v: "stage_abandonments st (stage_of s) = Some v"
      using ab [of "stage_of s"] by auto
    have fl: "for_loop (fill_body cf) ([0..<j] @ [j]) (stage_entries st, stage_completions st) =
           Inr (bump (stage_entries st) (\<lambda>k. k \<in> set (take (j + 1) STAGE_ORDER)),
                bump (stage_completions st) (\<lambda>k. cf \<and> k \<in> set (take (j + 1) STAGE_ORDER)))" for cf
      using fill_loop [OF e c j(1), of cf] by simp
    have ns: "navigation_step d s = (if nav_backs_of s > 0 then dd_add d (stage_of s) (nav_backs_of s) else d)"
      and ds: "durations_step dd s = dd_append dd (stage_of s) (duration_of s)" for d dd
      using True by (simp_all add: navigation_step_def durations_step_def)
    show ?thesis
    proof (cases "abandoned_of s")
      case ab1: True
      show ?thesis
        using True j(2) v ab1
        by (simp add: session_body_def pure_step_def Let_def bind_err_def folds dict_incr_def
            fl steps_known [OF j(2)] abandonments_step_hit [where d = "stage_abandonments st", OF ab1 True v] ns ds)
    next
      case ab0: False
      show ?thesis
        using True j(2) v ab0
        by (simp add: session_body_def pure_step_def Let_def bind_err_def folds
            fl steps_known [OF j(2)] abandonments_step_miss ns ds)
    qed
  qed
qed

lemma dom_bump: "(\<And>k. P k \<Longrightarrow> k \<in> dom d) \<Longrightarrow> dom (bump d P) = dom d"
  by (auto simp: bump_def dom_def split: if_splits)

lemma reached_stage: "reached k s \<Longrightarrow> k \<in> set STAGE_ORDER"
  by (auto simp: reached_def split: sum.splits dest: in_set_takeD)

lemma keys_ok_pure_step:
  assumes "keys_ok st"
  shows "keys_ok (pure_step st s)"
proof -
  have "dom (entries_step (stage_entries st) s) = set STAGE_ORDER"
    unfolding entries_step_def using assms reached_stage
    by (subst dom_bump) (auto simp: keys_ok_def)
  moreover have "dom (completions_step (stage_completions st) s) = set STAGE_ORDER"
    unfolding completions_step_def using assms reached_stage
    by (subst dom_bump) (auto simp: keys_ok_def)
  moreover have "dom (abandonments_step (stage_abandonments st) s) = set STAGE_ORDER"
    unfolding abandonments_step_def using assms
    by (subst dom_bump) (auto simp: keys_ok_def)
  ultimately show ?thesis
    by (simp add: keys_ok_def pure_step_def)
qed

lemma loop_pure:
  "keys_ok st \<Longrightarrow> for_loop session_body ss st = Inr (foldl pure_step st ss)"
  by (induction ss arbitrary: st) (simp_all add: body_pure keys_ok_pure_step)

lemma keys_ok_foldl: "keys_ok st \<Longrightarrow> keys_ok (foldl pure_step st ss)"
  by (induction ss arbitrary: st) (simp_all add: keys_ok_pure_step)

lemma keys_ok_init: "keys_ok init_state"
  by (auto simp: keys_ok_def init_state_def zero_counters_def STAGE_ORDER_def dom_def)

lemma for_loop_pure:
  "(\<And>s x. x \<in> set xs \<Longrightarrow> body s x = Inr (f s x)) \<Longrightarrow> for_loop body xs s = Inr (foldl f s xs)"
  by (induction xs arbitrary: s) simp_all

section \<open>Closed forms of the counters\<close>

lemma fold_fields:
  "stage_entries (foldl pure_step st ss) = foldl entries_step (stage_entries st) ss"
  "stage_completions (foldl pure_step st ss) = foldl completions_step (stage_completions st) ss"
  "stage_abandonments (foldl pure_step st ss) = foldl abandonments_step (stage_abandonments st) ss"
  "stage_durations (foldl pure_step st ss) = foldl durations_step (stage_durations st) ss"
  "navigation_by_stage (foldl pure_step st ss) = foldl navigation_step (navigation_by_stage st) ss"
  "total_completed (foldl pure_step st ss) = total_completed st + count_sessions completed_of ss"
  "total_abandoned (foldl pure_step st ss) = total_abandoned st + count_sessions abandoned_of ss"
  by (induction ss arbitrary: st, simp_all add: pure_step_def count_sessions_def)+

lemma foldl_bump:
  assumes "\<And>d s. f d s = bump d (\<lambda>k. Q k s)" and "d k = Some a"
  shows "foldl f d ss k = Some (a + count_sessions (Q k) ss)"
  using assms(2)
  by (induction ss arbitrary: d a) (auto simp: assms(1) bump_def get_or_def count_sessions_def)

lemma zero_counters_stage: "k \<in> set STAGE_ORDER \<Longrightarrow> zero_counters k = Some 0"
  by (auto simp: zero_counters_def STAGE_ORDER_def)

lemma final_counts:
  assumes "k \<in> set STAGE_ORDER"
  shows "stage_entries (final_state ss) k = Some (count_sessions (reached k) ss)"
    and "stage_completions (final_state ss) k =
           Some (count_sessions (\<lambda>s. completed_of s \<and> reached k s) ss)"
    and "stage_abandonments (final_state ss) k =
           Some (count_sessions (\<lambda>s. abandoned_of s \<and> stage_of s = k) ss)"
proof -
  have z: "zero_counters k = Some 0" by (rule zero_counters_stage [OF assms])
  have "foldl entries_step zero_counters ss k = Some (0 + count_sessions (reached k) ss)"
    by (rule foldl_bump [where Q = reached]) (simp_all add: entries_step_def z)
  then show "stage_entries (final_state ss) k = Some (count_sessions (reached k) ss)"
    by (simp add: final_state_def fold_fields init_state_def)
  have "foldl completions_step zero_counters ss k =
          Some (0 + count_sessions (\<lambda>s. completed_of s \<and> reached k s) ss)"
    by (rule foldl_bump [where Q = "\<lambda>k s. completed_of s \<and> reached k s"])
       (simp_all add: completions_step_def z)
  then show "stage_completions (final_state ss) k =
           Some (count_sessions (\<lambda>s. completed_of s \<and> reached k s) ss)"
    by (simp add: final_state_def fold_fields init_state_def)
  have "foldl abandonments_step zero_counters ss k =
          Some (0 + count_sessions (\<lambda>s. abandoned_of s \<and> k = stage_of s \<and> k \<in> set STAGE_ORDER) ss)"
    by (rule foldl_bump
          [where Q = "\<lambda>k s. abandoned_of s \<and> k = stage_of s \<and> k \<in> set STAGE_ORDER"])
       (simp_all add: abandonments_step_def z)
  moreover have "(\<lambda>s. abandoned_of s \<and> k = stage_of s \<and> k \<in> set STAGE_ORDER) =
      (\<lambda>s. abandoned_of s \<and> stage_of s = k)"
    using assms by auto
  ultimately show "stage_abandonments (final_state ss) k =
           Some (count_sessions (\<lambda>s. abandoned_of s \<and> stage_of s = k) ss)"
    by (simp add: final_state_def fold_fields init_state_def)
qed

lemma final_totals:
  "total_completed (final_state ss) = count_sessions completed_of ss"
  "total_abandoned (final_state ss) = count_sessions abandoned_of ss"
  by (simp_all add: final_state_def fold_fields init_state_def)

lemma count_sessions_mono:
  "(\<And>s. s \<in> set ss \<Longrightarrow> P s \<Longrightarrow> Q s) \<Longrightarrow> count_sessions P ss \<le> count_sessions Q ss"
  by (induction ss) (auto simp: count_sessions_def)

lemma count_sessions_nonneg: "0 \<le> count_sessions P ss"
  by (simp add: count_sessions_def)

lemma count_sessions_insert:
  "count_sessions P (xs @ s # ys) = count_sessions P (xs @ ys) + (if P s then 1 else 0)"
  by (simp add: count_sessions_def)

lemma list_index_sound: "list_index xs x = Inr j \<Longrightarrow> j < length xs \<and> xs ! j = x"
  by (induction xs arbitrary: j) (auto split: if_splits sum.splits)

lemma list_index_nth: "distinct xs \<Longrightarrow> j < length xs \<Longrightarrow> list_index xs (xs ! j) = Inr j"
proof (induction xs arbitrary: j)
  case Nil
  then show ?case by simp
next
  case (Cons y ys)
  show ?case
  proof (cases j)
    case 0
    then show ?thesis by simp
  next
    case (Suc m)
    with Cons.prems have "ys ! m \<in> set ys" "m < length ys" by simp_all
    with Cons.prems have "y \<noteq> ys ! m" by auto
    with Cons Suc show ?thesis by simp
  qed
qed

lemma in_take_nth:
  assumes "distinct xs" "i < length xs"
  shows "xs ! i \<in> set (take n xs) \<longleftrightarrow> i < n"
proof
  assume "xs ! i \<in> set (take n xs)"
  then obtain m where m: "m < length (take n xs)" "take n xs ! m = xs ! i"
    by (auto simp: in_set_conv_nth)
  then have "xs ! m = xs ! i" "m < length xs" "m < n" by simp_all
  with assms have "m = i" by (simp add: nth_eq_iff_index_eq)
  with \<open>m < n\<close> show "i < n" by simp
next
  assume "i < n"
  with assms have "i < length (take n xs)" "take n xs ! i = xs ! i" by simp_all
  then show "xs ! i \<in> set (take n xs)" by (metis nth_mem)
qed

lemma distinct_STAGE_ORDER: "distinct STAGE_ORDER"
  by (simp add: STAGE_ORDER_def)

lemma length_STAGE_ORDER: "length STAGE_ORDER = 5"
  by (simp add: STAGE_ORDER_def)

lemma reached_nth:
  assumes "i < 5"
  shows "reached (STAGE_ORDER ! i) s \<longleftrightarrow>
           (\<exists>j. list_index STAGE_ORDER (stage_of s) = Inr j \<and> i \<le> j)"
  using assms
  by (auto simp: reached_def in_take_nth distinct_STAGE_ORDER length_STAGE_ORDER
      split: sum.splits)

lemma reached_mono:
  assumes "i + 1 < 5" "reached (STAGE_ORDER ! (i + 1)) s"
  shows "reached (STAGE_ORDER ! i) s"
proof -
  from assms obtain j where "list_index STAGE_ORDER (stage_of s) = Inr j" "i + 1 \<le> j"
    by (auto simp: reached_nth)
  then have "\<exists>j. list_index STAGE_ORDER (stage_of s) = Inr j \<and> i \<le> j"
    by (intro exI [of _ j]) simp
  with assms(1) show ?thesis by (simp add: reached_nth)
qed

lemma list_index_Inr_iff: "(\<exists>j. list_index xs x = Inr j) \<longleftrightarrow> x \<in> set xs"
proof
  assume "\<exists>j. list_index xs x = Inr j"
  then obtain j where j: "list_index xs x = Inr j" ..
  have "j < length xs \<and> xs ! j = x" by (rule list_index_sound [OF j])
  then show "x \<in> set xs" by (metis nth_mem)
next
  assume "x \<in> set xs"
  then have "\<exists>j<length xs. list_index xs x = Inr j" by (rule list_index_present)
  then show "\<exists>j. list_index xs x = Inr j" by blast
qed

lemma reached_widget: "reached ''widget_activation'' s \<longleftrightarrow> stage_of s \<in> set STAGE_ORDER"
proof -
  have w: "STAGE_ORDER ! 0 = ''widget_activation''" by (simp add: STAGE_ORDER_def)
  have "reached (STAGE_ORDER ! 0) s \<longleftrightarrow> (\<exists>j. list_index STAGE_ORDER (stage_of s) = Inr j \<and> 0 \<le> j)"
    by (rule reached_nth) simp
  also have "\<dots> \<longleftrightarrow> (\<exists>j. list_index STAGE_ORDER (stage_of s) = Inr j)" by simp
  also have "\<dots> \<longleftrightarrow> stage_of s \<in> set STAGE_ORDER" by (rule list_index_Inr_iff)
  finally show ?thesis unfolding w .
qed

lemma stage_nth_mem: "i < 5 \<Longrightarrow> STAGE_ORDER ! i \<in> set STAGE_ORDER"
  by (simp add: length_STAGE_ORDER)

lemma entries_step_down:
  assumes "i + 1 < 5"
  shows "count_sessions (reached (STAGE_ORDER ! (i + 1))) ss \<le>
         count_sessions (reached (STAGE_ORDER ! i)) ss"
  by (rule count_sessions_mono) (rule reached_mono [OF assms])

lemma final_entries_ordered:
  assumes "i < 4"
  shows "0 \<le> get_or (stage_entries (final_state ss) (STAGE_ORDER ! (i + 1))) 0 \<and>
         get_or (stage_entries (final_state ss) (STAGE_ORDER ! (i + 1))) 0 \<le>
         get_or (stage_entries (final_state ss) (STAGE_ORDER ! i)) 0"
proof -
  from assms have a: "i + 1 < 5" and b: "i < 5" by simp_all
  have u: "stage_entries (final_state ss) (STAGE_ORDER ! (i + 1)) =
             Some (count_sessions (reached (STAGE_ORDER ! (i + 1))) ss)"
    by (rule final_counts [OF stage_nth_mem [OF a]])
  have l: "stage_entries (final_state ss) (STAGE_ORDER ! i) =
             Some (count_sessions (reached (STAGE_ORDER ! i)) ss)"
    by (rule final_counts [OF stage_nth_mem [OF b]])
  show ?thesis
    unfolding u l get_or_def
    using entries_step_down [OF a, of ss] by (simp add: count_sessions_nonneg)
qed

section \<open>Quotients and the range of the doubles\<close>

lemma overflow_bound_gt_one: "1 < overflow_bound"
  by (simp add: overflow_bound_def)

lemma not_overflow_unit:
  assumes "0 \<le> q" "q \<le> 1"
  shows "\<not> float_overflow q"
proof -
  have "(1::rat) < of_int overflow_bound"
    using overflow_bound_gt_one by (simp only: of_int_1_less_iff)
  with assms show ?thesis by (simp add: float_overflow_def)
qed

lemma float_overflow_mono: "\<bar>q\<bar> \<le> \<bar>q'\<bar> \<Longrightarrow> float_overflow q \<Longrightarrow> float_overflow q'"
  by (simp add: float_overflow_def)

lemma truediv_unit:
  assumes "0 \<le> b" "b \<le> a" "0 < a"
  shows "truediv b a = Inr (of_int b / of_int a)"
proof -
  have "0 \<le> (of_int b / of_int a :: rat)" "(of_int b / of_int a :: rat) \<le> 1"
    using assms by (simp_all add: divide_le_eq_1_pos)
  then have "\<not> float_overflow (of_int b / of_int a)"
    by (rule not_overflow_unit)
  with assms(3) show ?thesis by (simp add: truediv_def)
qed

lemma conversion_body_pure:
  assumes e: "dom entries = set STAGE_ORDER" and i: "i < 4"
    and ord: "0 \<le> get_or (entries (STAGE_ORDER ! (i + 1))) 0 \<and>
      get_or (entries (STAGE_ORDER ! (i + 1))) 0 \<le> get_or (entries (STAGE_ORDER ! i)) 0"
  shows "conversion_body entries rates i = Inr (conversion_pure entries rates i)"
proof -
  obtain a0 a1 a2 a3 a4 where a:
    "entries ''widget_activation'' = Some a0" "entries ''search_configuration'' = Some a1"
    "entries ''room_selection'' = Some a2" "entries ''rate_selection'' = Some a3"
    "entries ''booking_completion'' = Some a4"
    using e by (rule dom_stage_keys)
  from i consider "i = 0" | "i = 1" | "i = 2" | "i = 3" by linarith
  then show ?thesis
    using ord
    by cases
      (simp_all add: conversion_body_def conversion_pure_def rate_key_def bind_err_def
        list_get_def dict_get_def truediv_unit STAGE_ORDER_def get_or_def a)
qed

lemma conversion_loop_pure:
  assumes "dom entries = set STAGE_ORDER"
    and "\<And>i. i < 4 \<Longrightarrow>
      0 \<le> get_or (entries (STAGE_ORDER ! (i + 1))) 0 \<and>
      get_or (entries (STAGE_ORDER ! (i + 1))) 0 \<le> get_or (entries (STAGE_ORDER ! i)) 0"
  shows "for_loop (conversion_body entries) [0..<length STAGE_ORDER - 1] Map.empty =
           Inr (foldl (conversion_pure entries) Map.empty [0..<4])"
proof -
  have l: "length STAGE_ORDER - 1 = 4" by (simp add: STAGE_ORDER_def)
  show ?thesis
    unfolding l by (rule for_loop_pure) (simp add: conversion_body_pure [OF assms(1) _ assms(2)])
qed

lemma average_body_pure:
  "average_body avg item =
     (if snd item \<noteq> [] \<and> float_overflow (mean_of (snd item)) then Inl OverflowError
      else Inr (average_pure avg item))"
  by (simp add: average_body_def average_pure_def mean_of_def truediv_def bind_err_def Let_def)

lemma average_loop:
  "for_loop average_body items avg =
     (if average_overflows items then Inl OverflowError
      else Inr (foldl average_pure avg items))"
  by (induction items arbitrary: avg) (simp_all add: average_overflows_def average_body_pure)

lemma bind_err_Inr: "bind_err (Inr v) f = f v"
  by (simp add: bind_err_def)

lemma calculate_nonempty:
  assumes "ss \<noteq> []"
  shows "calculate_funnel_metrics ss =
           (if overall_overflows (final_state ss) \<or>
               average_overflows (stage_durations (final_state ss))
            then Inl OverflowError
            else Inr (result_dict (final_state ss) (length ss)))"
proof -
  let ?st = "final_state ss"
  have k: "keys_ok ?st"
    unfolding final_state_def by (rule keys_ok_foldl [OF keys_ok_init])
  then have d: "dom (stage_entries ?st) = set STAGE_ORDER"
    by (simp add: keys_ok_def)
  then obtain a0 where a0: "stage_entries ?st ''widget_activation'' = Some a0"
    by (rule dom_stage_keys)
  have lp: "for_loop session_body ss init_state = Inr ?st"
    unfolding final_state_def by (rule loop_pure [OF keys_ok_init])
  have cl: "for_loop (conversion_body (stage_entries ?st)) [0..<length STAGE_ORDER - 1] Map.empty =
           Inr (foldl (conversion_pure (stage_entries ?st)) Map.empty [0..<4])"
    by (rule conversion_loop_pure [OF d final_entries_ordered])
  have dg: "dict_get (stage_entries ?st) ''widget_activation'' = Inr a0"
    by (simp add: dict_get_def a0)
  have ov: "(if a0 > 0
             then bind_err (truediv (total_completed ?st) a0) (\<lambda>q. Inr (FloatV q))
             else Inr (IntV 0)) =
            (if overall_overflows ?st then Inl OverflowError else Inr (overall_pure ?st))"
    by (simp add: bind_err_def truediv_def overall_pure_def overall_overflows_def a0 get_or_def)
  have "calculate_funnel_metrics ss =
          bind_err (for_loop session_body ss init_state) (\<lambda>st.
          bind_err (for_loop (conversion_body (stage_entries st)) [0..<length STAGE_ORDER - 1]
                      Map.empty) (\<lambda>conversion_rates.
          bind_err (dict_get (stage_entries st) ''widget_activation'') (\<lambda>n_widget.
          bind_err (if n_widget > 0
                    then bind_err (dict_get (stage_entries st) ''widget_activation'') (\<lambda>n.
                         bind_err (truediv (total_completed st) n) (\<lambda>q. Inr (FloatV q)))
                    else Inr (IntV 0)) (\<lambda>overall_conversion.
          bind_err (for_loop average_body (stage_durations st) Map.empty) (\<lambda>avg_durations.
            Inr [''total_sessions'' \<mapsto> IntV (int (length ss)),
                 ''completed_sessions'' \<mapsto> IntV (total_completed st),
                 ''abandoned_sessions'' \<mapsto> IntV (total_abandoned st),
                 ''overall_conversion'' \<mapsto> overall_conversion,
                 ''stage_entries'' \<mapsto> IntDictV (stage_entries st),
                 ''stage_completions'' \<mapsto> IntDictV (stage_completions st),
                 ''stage_abandonments'' \<mapsto> IntDictV (stage_abandonments st),
                 ''conversion_rates'' \<mapsto> FloatDictV conversion_rates,
                 ''avg_durations'' \<mapsto> FloatDictV avg_durations,
                 ''navigation_by_stage'' \<mapsto> IntDictV (navigation_by_stage st)])))))"
    using assms unfolding calculate_funnel_metrics_def by (simp only: if_False)
  also have "\<dots> =
      bind_err (if overall_overflows ?st then Inl OverflowError else Inr (overall_pure ?st))
        (\<lambda>overall_conversion.
          bind_err (if average_overflows (stage_durations ?st) then Inl OverflowError
                    else Inr (foldl average_pure Map.empty (stage_durations ?st)))
            (\<lambda>avg_durations.
              Inr [''total_sessions'' \<mapsto> IntV (int (length ss)),
                   ''completed_sessions'' \<mapsto> IntV (total_completed ?st),
                   ''abandoned_sessions'' \<mapsto> IntV (total_abandoned ?st),
                   ''overall_conversion'' \<mapsto> overall_conversion,
                   ''stage_entries'' \<mapsto> IntDictV (stage_entries ?st),
                   ''stage_completions'' \<mapsto> IntDictV (stage_completions ?st),
                   ''stage_abandonments'' \<mapsto> IntDictV (stage_abandonments ?st),
                   ''conversion_rates'' \<mapsto>
                     FloatDictV (foldl (conversion_pure (stage_entries ?st)) Map.empty [0..<4]),
                   ''avg_durations'' \<mapsto> FloatDictV avg_durations,
                   ''navigation_by_stage'' \<mapsto> IntDictV (navigation_by_stage ?st)]))"
    unfolding lp bind_err_Inr cl dg ov average_loop ..
  also have "\<dots> =
      (if overall_overflows ?st \<or> average_overflows (stage_durations ?st)
       then Inl OverflowError
       else Inr (result_dict ?st (length ss)))"
    by (simp add: bind_err_def result_dict_def)
  finally show ?thesis .
qed

lemma calculate_returns:
  assumes "ss \<noteq> []" and "calculate_funnel_metrics ss \<noteq> Inl OverflowError"
  shows "calculate_funnel_metrics ss = Inr (result_dict (final_state ss) (length ss))"
  using assms(2) unfolding calculate_nonempty [OF assms(1)] by (simp split: if_splits)

lemma calculate_raises_only_overflow:
  assumes "calculate_funnel_metrics ss = Inl e"
  shows "e = OverflowError"
proof (cases "ss = []")
  case True
  with assms show ?thesis by (simp add: calculate_funnel_metrics_def)
next
  case False
  with assms show ?thesis
    unfolding calculate_nonempty [OF False] by (simp split: if_splits)
qed

section \<open>Inputs inside the range of the doubles\<close>

lemma float_overflow_int: "float_overflow (of_int d) \<longleftrightarrow> overflow_bound \<le> \<bar>d\<bar>"
  unfolding float_overflow_def by (simp only: of_int_abs [symmetric] of_int_le_iff)

lemma sum_list_abs_bound:
  "(\<And>d. d \<in> set l \<Longrightarrow> \<bar>d\<bar> \<le> m) \<Longrightarrow> \<bar>sum_list l\<bar> \<le> int (length l) * (m::int)"
proof (induction l)
  case Nil
  then show ?case by simp
next
  case (Cons x l)
  have "\<bar>x\<bar> \<le> m" by (rule Cons.prems) simp
  moreover have "\<bar>sum_list l\<bar> \<le> int (length l) * m"
    by (rule Cons.IH) (rule Cons.prems, simp)
  ultimately show ?case by (simp add: algebra_simps)
qed

lemma mean_in_range:
  assumes "l \<noteq> []" and r: "\<And>d. d \<in> set l \<Longrightarrow> \<not> float_overflow (of_int d)"
  shows "\<not> float_overflow (mean_of l)"
proof -
  define m :: int where "m = overflow_bound - 1"
  have b: "\<bar>d\<bar> \<le> m" if "d \<in> set l" for d
    using r [OF that] unfolding float_overflow_int m_def by linarith
  have s: "\<bar>sum_list l\<bar> \<le> int (length l) * m"
    by (rule sum_list_abs_bound) (rule b)
  have len: "0 < (of_int (int (length l)) :: rat)" using assms(1) by simp
  have s': "(of_int \<bar>sum_list l\<bar> :: rat) \<le> of_int (int (length l) * m)"
    using s by (simp only: of_int_le_iff)
  have "\<bar>mean_of l\<bar> = of_int \<bar>sum_list l\<bar> / of_int (int (length l))"
    by (simp add: mean_of_def)
  also have "\<dots> \<le> of_int (int (length l) * m) / of_int (int (length l))"
    by (rule divide_right_mono [OF s']) (use len in simp)
  also have "\<dots> = of_int m"
    using len by simp
  finally have "\<bar>mean_of l\<bar> \<le> of_int m" .
  moreover have "(of_int m :: rat) < of_int overflow_bound"
    unfolding m_def by simp
  ultimately show ?thesis
    by (simp add: float_overflow_def)
qed

lemma dd_append_all:
  assumes "\<forall>item\<in>set d. \<forall>y\<in>set (snd item). Q y" and "Q x"
  shows "\<forall>item\<in>set (dd_append d k x). \<forall>y\<in>set (snd item). Q y"
  using assms(1)
proof (induction d)
  case Nil
  then show ?case using assms(2) by simp
next
  case (Cons kl d)
  obtain k' l where kl: "kl = (k', l)" by (cases kl)
  show ?case
  proof (cases "k' = k")
    case True
    with Cons.prems assms(2) show ?thesis by (simp add: kl)
  next
    case False
    with Cons.IH Cons.prems show ?thesis by (simp add: kl)
  qed
qed

lemma durations_step_all:
  assumes "\<forall>item\<in>set d. \<forall>y\<in>set (snd item). Q y" and "Q (duration_of s)"
  shows "\<forall>item\<in>set (durations_step d s). \<forall>y\<in>set (snd item). Q y"
proof (cases "stage_of s \<in> set STAGE_ORDER")
  case True
  then have "durations_step d s = dd_append d (stage_of s) (duration_of s)"
    by (simp add: durations_step_def)
  then show ?thesis using dd_append_all [OF assms] by simp
next
  case False
  then have "durations_step d s = d" by (simp add: durations_step_def)
  then show ?thesis using assms(1) by simp
qed

lemma durations_fold_all:
  "(\<forall>item\<in>set d. \<forall>y\<in>set (snd item). Q y) \<Longrightarrow> (\<forall>s\<in>set ss. Q (duration_of s)) \<Longrightarrow>
   \<forall>item\<in>set (foldl durations_step d ss). \<forall>y\<in>set (snd item). Q y"
proof (induction ss arbitrary: d)
  case Nil
  then show ?case by simp
next
  case (Cons s ss)
  have q: "Q (duration_of s)" using Cons.prems(2) by simp
  have r: "\<forall>s\<in>set ss. Q (duration_of s)" using Cons.prems(2) by simp
  have "\<forall>item\<in>set (foldl durations_step (durations_step d s) ss). \<forall>y\<in>set (snd item). Q y"
    by (rule Cons.IH [OF durations_step_all [OF Cons.prems(1) q] r])
  then show ?case by simp
qed

lemma average_in_range:
  assumes "in_float_range ss"
  shows "\<not> average_overflows (stage_durations (final_state ss))"
proof
  assume "average_overflows (stage_durations (final_state ss))"
  then obtain item where item: "item \<in> set (foldl durations_step [] ss)"
      "snd item \<noteq> []" "float_overflow (mean_of (snd item))"
    unfolding average_overflows_def list_ex_iff final_state_def fold_fields
    by (auto simp: init_state_def)
  have "\<forall>s\<in>set ss. \<not> float_overflow (of_int (duration_of s))"
    using assms by (simp add: in_float_range_def list_all_iff)
  then have "\<forall>item\<in>set (foldl durations_step [] ss).
      \<forall>y\<in>set (snd item). \<not> float_overflow (of_int y)"
    by (intro durations_fold_all) simp_all
  with item(1) have "\<And>d. d \<in> set (snd item) \<Longrightarrow> \<not> float_overflow (of_int d)"
    by blast
  then have "\<not> float_overflow (mean_of (snd item))"
    by (rule mean_in_range [OF item(2)])
  with item(3) show False by contradiction
qed

lemma count_sessions_le_length: "count_sessions P ss \<le> int (length ss)"
  by (simp add: count_sessions_def)


lemma overall_in_range:
  assumes "in_float_range ss"
  shows "\<not> overall_overflows (final_state ss)"
proof
  let ?c = "count_sessions completed_of ss"
  let ?e = "count_sessions (reached ''widget_activation'') ss"
  have w: "''widget_activation'' \<in> set STAGE_ORDER" by (simp add: STAGE_ORDER_def)
  assume "overall_overflows (final_state ss)"
  then have e: "0 < ?e" and o: "float_overflow (of_int ?c / of_int ?e)"
    by (simp_all add: overall_overflows_def final_counts [OF w] final_totals get_or_def)
  have c: "0 \<le> ?c" "?c \<le> int (length ss)"
    by (rule count_sessions_nonneg, rule count_sessions_le_length)
  have "(of_int ?c / of_int ?e :: rat) \<le> of_int ?c"
    using e c(1) by (simp add: divide_le_eq mult_le_cancel_left1)
  moreover have "(0::rat) \<le> of_int ?c / of_int ?e"
    using e c(1) by simp
  moreover have "(of_int ?c :: rat) \<le> of_int (int (length ss))"
    using c(2) by (simp only: of_int_le_iff)
  ultimately have "\<bar>of_int ?c / of_int ?e :: rat\<bar> \<le> \<bar>of_int (int (length ss))\<bar>"
    by simp
  then have "float_overflow (of_int (int (length ss)))"
    using o by (rule float_overflow_mono)
  with assms show False by (simp add: in_float_range_def)
qed

lemma calculate_in_range:
  assumes "in_float_range ss"
  shows "calculate_funnel_metrics ss \<noteq> Inl OverflowError"
proof (cases "ss = []")
  case True
  then show ?thesis by (simp add: calculate_funnel_metrics_def)
next
  case False
  show ?thesis
    unfolding calculate_nonempty [OF False]
    using overall_in_range [OF assms] average_in_range [OF assms] by simp
qed

section \<open>The returned dict of a non-empty list\<close>

lemma metric_nonempty:
  assumes "ss \<noteq> []" and "calculate_funnel_metrics ss \<noteq> Inl OverflowError"
  shows "metric (calculate_funnel_metrics ss) ''total_sessions'' = Some (IntV (int (length ss)))"
    and "metric (calculate_funnel_metrics ss) ''completed_sessions'' =
           Some (IntV (total_completed (final_state ss)))"
    and "metric (calculate_funnel_metrics ss) ''abandoned_sessions'' =
           Some (IntV (total_abandoned (final_state ss)))"
    and "metric (calculate_funnel_metrics ss) ''overall_conversion'' =
           Some (overall_pure (final_state ss))"
    and "metric (calculate_funnel_metrics ss) ''stage_entries'' =
           Some (IntDictV (stage_entries (final_state ss)))"
    and "metric (calculate_funnel_metrics ss) ''stage_completions'' =
           Some (IntDictV (stage_completions (final_state ss)))"
    and "metric (calculate_funnel_metrics ss) ''stage_abandonments'' =
           Some (IntDictV (stage_abandonments (final_state ss)))"
    and "metric (calculate_funnel_metrics ss) ''conversion_rates'' =
           Some (FloatDictV (foldl (conversion_pure (stage_entries (final_state ss))) Map.empty [0..<4]))"
    and "metric (calculate_funnel_metrics ss) ''avg_durations'' =
           Some (FloatDictV (foldl average_pure Map.empty (stage_durations (final_state ss))))"
    and "metric (calculate_funnel_metrics ss) ''navigation_by_stage'' =
           Some (IntDictV (navigation_by_stage (final_state ss)))"
  by (simp_all add: calculate_returns [OF assms] metric_def result_dict_def)

lemma metric_empty: "metric (calculate_funnel_metrics []) key = None"
  by (simp add: calculate_funnel_metrics_def metric_def)

lemma entry_empty:
  "int_entry (calculate_funnel_metrics []) key k = None"
  "float_entry (calculate_funnel_metrics []) key k = None"
  by (simp_all add: int_entry_def float_entry_def metric_empty)

lemma metric_raised: "metric (Inl e) key = None"
  by (simp add: metric_def)

lemma entry_raised:
  "int_entry (Inl e) key k = None"
  "float_entry (Inl e) key k = None"
  by (simp_all add: int_entry_def float_entry_def metric_def)

lemma stage_entries_entry:
  assumes "ss \<noteq> []" "calculate_funnel_metrics ss \<noteq> Inl OverflowError" "k \<in> set STAGE_ORDER"
  shows "int_entry (calculate_funnel_metrics ss) ''stage_entries'' k =
           Some (count_sessions (reached k) ss)"
  by (simp add: int_entry_def metric_nonempty [OF assms(1,2)] final_counts [OF assms(3)])

lemma stage_completions_entry:
  assumes "ss \<noteq> []" "calculate_funnel_metrics ss \<noteq> Inl OverflowError" "k \<in> set STAGE_ORDER"
  shows "int_entry (calculate_funnel_metrics ss) ''stage_completions'' k =
           Some (count_sessions (\<lambda>s. completed_of s \<and> reached k s) ss)"
  by (simp add: int_entry_def metric_nonempty [OF assms(1,2)] final_counts [OF assms(3)])

lemma stage_abandonments_entry:
  assumes "ss \<noteq> []" "calculate_funnel_metrics ss \<noteq> Inl OverflowError" "k \<in> set STAGE_ORDER"
  shows "int_entry (calculate_funnel_metrics ss) ''stage_abandonments'' k =
           Some (count_sessions (\<lambda>s. abandoned_of s \<and> stage_of s = k) ss)"
  by (simp add: int_entry_def metric_nonempty [OF assms(1,2)] final_counts [OF assms(3)])

lemma totals_nonempty:
  assumes "ss \<noteq> []" and "calculate_funnel_metrics ss \<noteq> Inl OverflowError"
  shows "metric (calculate_funnel_metrics ss) ''total_sessions'' = Some (IntV (int (length ss)))"
    and "metric (calculate_funnel_metrics ss) ''completed_sessions'' =
           Some (IntV (count_sessions completed_of ss))"
    and "metric (calculate_funnel_metrics ss) ''abandoned_sessions'' =
           Some (IntV (count_sessions abandoned_of ss))"
  by (simp_all add: metric_nonempty [OF assms] final_totals)

lemmas run_defs =
  calculate_funnel_metrics_def metric_def int_entry_def float_entry_def number_metric_def
  bind_err_def session_body_def fill_body_def conversion_body_def average_body_def
  dict_get_def dict_incr_def dd_add_def list_get_def truediv_def float_overflow_def
  overflow_bound_def STAGE_ORDER_def get_or_def init_state_def zero_counters_def Let_def
  example_session_def upt_rec

lemma replicate_unfold:
  "replicate 4 x = [x, x, x, x]"
  "replicate 5 x = [x, x, x, x, x]"
  by (simp_all add: numeral_eq_Suc)

text \<open>
  The mean of a duration of \<open>10\<^sup>3\<^sup>0\<^sup>9\<close> seconds is beyond the doubles, and the call raises.
\<close>

lemma huge_duration_raises: "calculate_funnel_metrics huge_duration = Inl OverflowError"
  by (simp add: huge_duration_def run_defs)

section \<open>The empty session list\<close>

text \<open>
  Claim C1, as amended. On the empty session list \<^verbatim>\<open>calculate_funnel_metrics\<close> takes
  the early return \<^verbatim>\<open>if not sessions: return {}\<close>: it raises nothing and returns the
  empty dict, which holds no \<^verbatim>\<open>total_sessions\<close> and no counter at all.
\<close>

theorem C1_empty_input_returns_empty_dict:
  "calculate_funnel_metrics [] = Inr Map.empty"
  by (simp add: calculate_funnel_metrics_def)

text \<open>
  Claim C1 as stated asks for \<^verbatim>\<open>total_sessions = 0\<close> in the result of the empty list;
  the key is absent there.
\<close>

theorem C1_counterexample:
  "metric (calculate_funnel_metrics []) ''total_sessions'' = None \<and>
   metric (calculate_funnel_metrics []) ''total_sessions'' \<noteq> Some (IntV 0)"
  by (simp add: calculate_funnel_metrics_def metric_def)

section \<open>Stage entries along the stage order\<close>

text \<open>
  Claim C2, as amended. For a non-empty session list on which the call returns (it raises
  \<^verbatim>\<open>OverflowError\<close> only when a quotient leaves the range of the doubles), the result
  holds an entry count for each stage; and for every list, wherever the result holds the
  entry counts of two adjacent stages, the later stage has no more entries than the
  earlier one.
\<close>

theorem C2_stage_entries_non_increasing:
  "(\<forall>i a b. i + 1 < length STAGE_ORDER \<longrightarrow>
      int_entry (calculate_funnel_metrics ss) ''stage_entries'' (STAGE_ORDER ! i) = Some a \<longrightarrow>
      int_entry (calculate_funnel_metrics ss) ''stage_entries'' (STAGE_ORDER ! (i + 1)) = Some b \<longrightarrow>
      b \<le> a) \<and>
   (ss \<noteq> [] \<longrightarrow> calculate_funnel_metrics ss \<noteq> Inl OverflowError \<longrightarrow>
      (\<forall>k \<in> set STAGE_ORDER.
         int_entry (calculate_funnel_metrics ss) ''stage_entries'' k \<noteq> None))"
proof (cases "ss \<noteq> [] \<and> calculate_funnel_metrics ss \<noteq> Inl OverflowError")
  case False
  then have "ss = [] \<or> calculate_funnel_metrics ss = Inl OverflowError" by blast
  then have "int_entry (calculate_funnel_metrics ss) ''stage_entries'' k = None" for k
    by (auto simp: entry_empty entry_raised)
  with False show ?thesis by auto
next
  case True
  then have n: "ss \<noteq> []" and ok: "calculate_funnel_metrics ss \<noteq> Inl OverflowError"
    by simp_all
  have "b \<le> a"
    if "i + 1 < 5"
      and "int_entry (calculate_funnel_metrics ss) ''stage_entries'' (STAGE_ORDER ! i) = Some a"
      and "int_entry (calculate_funnel_metrics ss) ''stage_entries'' (STAGE_ORDER ! (i + 1)) = Some b"
    for i a b
  proof -
    from that(1) have "i < 5" by simp
    then have "a = count_sessions (reached (STAGE_ORDER ! i)) ss"
      using that(2) stage_entries_entry [OF n ok stage_nth_mem, of i] by simp
    moreover have "b = count_sessions (reached (STAGE_ORDER ! (i + 1))) ss"
      using that(3) stage_entries_entry [OF n ok stage_nth_mem [OF that(1)]] by simp
    ultimately show ?thesis
      using entries_step_down [OF that(1), of ss] by simp
  qed
  then show ?thesis
    using n ok by (simp add: length_STAGE_ORDER stage_entries_entry)
qed

theorem C2_witness:
  "int_entry (calculate_funnel_metrics three_completed) ''stage_entries'' (STAGE_ORDER ! 2) = Some 3 \<and>
   int_entry (calculate_funnel_metrics three_completed) ''stage_entries'' (STAGE_ORDER ! 3) = Some 2 \<and>
   (2::int) \<le> 3 \<and> three_completed \<noteq> [] \<and>
   calculate_funnel_metrics three_completed \<noteq> Inl OverflowError \<and>
   int_entry (calculate_funnel_metrics three_completed) ''stage_entries'' ''booking_completion'' \<noteq> None"
proof -
  have a: "int_entry (calculate_funnel_metrics three_completed) ''stage_entries'' (STAGE_ORDER ! 2) = Some 3"
    by (simp add: three_completed_def run_defs)
  have b: "int_entry (calculate_funnel_metrics three_completed) ''stage_entries'' (STAGE_ORDER ! (2 + 1)) = Some 2"
    by (simp add: three_completed_def run_defs)
  have n: "three_completed \<noteq> []" by (simp add: three_completed_def)
  have ok: "calculate_funnel_metrics three_completed \<noteq> Inl OverflowError"
    by (simp add: three_completed_def run_defs)
  have l: "2 + 1 < length STAGE_ORDER" by (simp add: STAGE_ORDER_def)
  have m: "''booking_completion'' \<in> set STAGE_ORDER" by (simp add: STAGE_ORDER_def)
  note t = C2_stage_entries_non_increasing [of three_completed]
  from t have "(2::int) \<le> 3" using a b l by blast
  moreover from t n ok m
  have "int_entry (calculate_funnel_metrics three_completed) ''stage_entries'' ''booking_completion'' \<noteq> None"
    by blast
  ultimately show ?thesis using a b n ok by simp
qed

text \<open>
  Claim C2 as stated covers every input. For the empty list the call returns the empty
  dict: it holds no \<^verbatim>\<open>stage_entries\<close>, so there are no two counts to compare.
\<close>

theorem C2_counterexample:
  "metric (calculate_funnel_metrics []) ''stage_entries'' = None \<and>
   int_entry (calculate_funnel_metrics []) ''stage_entries'' (STAGE_ORDER ! 0) = None \<and>
   int_entry (calculate_funnel_metrics []) ''stage_entries'' (STAGE_ORDER ! 1) = None"
  by (simp add: metric_empty entry_empty)

section \<open>Conversion rates\<close>

lemma conversion_rate_lookup:
  assumes "i < 4"
  shows "foldl (conversion_pure e) Map.empty [0..<4] (rate_key i) =
           (if get_or (e (STAGE_ORDER ! i)) 0 > 0
            then Some (of_int (get_or (e (STAGE_ORDER ! (i + 1))) 0) /
                       of_int (get_or (e (STAGE_ORDER ! i)) 0))
            else None)"
proof -
  have u: "[0..<4] = [0, 1, 2, 3]" by (simp add: upt_rec)
  from assms consider "i = 0" | "i = 1" | "i = 2" | "i = 3" by linarith
  then show ?thesis
    by cases (simp_all add: u conversion_pure_def rate_key_def STAGE_ORDER_def)
qed

lemma conversion_pure_range:
  assumes e: "\<And>i. i < 4 \<Longrightarrow>
      0 \<le> get_or (e (STAGE_ORDER ! (i + 1))) 0 \<and>
      get_or (e (STAGE_ORDER ! (i + 1))) 0 \<le> get_or (e (STAGE_ORDER ! i)) 0"
    and r: "\<And>key q. r key = Some q \<Longrightarrow> 0 \<le> q \<and> q \<le> 1"
    and i: "i < 4"
    and c: "conversion_pure e r i key = Some q"
  shows "0 \<le> q \<and> q \<le> 1"
proof (cases "get_or (e (STAGE_ORDER ! i)) 0 > 0 \<and> key = rate_key i")
  case True
  let ?a = "get_or (e (STAGE_ORDER ! i)) 0"
  let ?b = "get_or (e (STAGE_ORDER ! (i + 1))) 0"
  from True c have q: "q = of_int ?b / of_int ?a"
    by (simp add: conversion_pure_def)
  have "0 \<le> ?b" "?b \<le> ?a" using e [OF i] by simp_all
  moreover have "0 < ?a" using True by simp
  ultimately show ?thesis
    unfolding q by (simp add: divide_le_eq_1_pos)
next
  case False
  with c have "r key = Some q"
    by (auto simp: conversion_pure_def split: if_splits)
  then show ?thesis by (rule r)
qed

lemma conversion_fold_range:
  assumes e: "\<And>i. i < 4 \<Longrightarrow>
      0 \<le> get_or (e (STAGE_ORDER ! (i + 1))) 0 \<and>
      get_or (e (STAGE_ORDER ! (i + 1))) 0 \<le> get_or (e (STAGE_ORDER ! i)) 0"
  shows "(\<And>key q. r key = Some q \<Longrightarrow> 0 \<le> q \<and> q \<le> 1) \<Longrightarrow> \<forall>i\<in>set xs. i < 4 \<Longrightarrow>
         foldl (conversion_pure e) r xs key = Some q \<Longrightarrow> 0 \<le> q \<and> q \<le> 1"
proof (induction xs arbitrary: r)
  case Nil
  then show ?case by simp
next
  case (Cons x xs)
  have x: "x < 4" using Cons.prems(2) by simp
  have step: "0 \<le> q' \<and> q' \<le> 1" if "conversion_pure e r x key' = Some q'" for key' q'
    using conversion_pure_range [OF e Cons.prems(1) x that] by simp
  show ?case
    using Cons.IH [of "conversion_pure e r x", OF step] Cons.prems(2,3) by simp
qed

text \<open>
  Claim C4. Every value that the \<^verbatim>\<open>conversion_rates\<close> dict of the result holds lies in
  the closed interval from 0 to 1.
\<close>

theorem C4_conversion_rates_in_unit_interval:
  "float_entry (calculate_funnel_metrics ss) ''conversion_rates'' key = Some q \<Longrightarrow>
   0 \<le> q \<and> q \<le> 1"
proof -
  assume v: "float_entry (calculate_funnel_metrics ss) ''conversion_rates'' key = Some q"
  have n: "ss \<noteq> []"
    using v by (auto simp: entry_empty)
  have ok: "calculate_funnel_metrics ss \<noteq> Inl OverflowError"
    using v by (auto simp: entry_raised)
  from v have "foldl (conversion_pure (stage_entries (final_state ss))) Map.empty [0..<4] key = Some q"
    by (simp add: float_entry_def metric_nonempty [OF n ok])
  moreover have "\<forall>i\<in>set [0..<4]. i < (4::nat)" by simp
  moreover have "0 \<le> q' \<and> q' \<le> 1" if "Map.empty key' = Some q'" for key' :: string and q' :: rat
    using that by simp
  ultimately show ?thesis
    using conversion_fold_range
      [of "stage_entries (final_state ss)" Map.empty "[0..<4]" key q, OF final_entries_ordered]
    by blast
qed

theorem C4_witness:
  "float_entry (calculate_funnel_metrics three_completed) ''conversion_rates''
     ''room_selection_to_rate_selection'' = Some (2 / 3) \<and>
   (0::rat) \<le> 2 / 3 \<and> (2 / 3 :: rat) \<le> 1"
proof -
  have v: "float_entry (calculate_funnel_metrics three_completed) ''conversion_rates''
     ''room_selection_to_rate_selection'' = Some (2 / 3)"
    by (simp add: three_completed_def run_defs)
  from C4_conversion_rates_in_unit_interval [OF v] v show ?thesis by simp
qed

text \<open>
  Claim C3, as amended. The call never raises \<^verbatim>\<open>ZeroDivisionError\<close>; the only
  exception it can raise is the \<^verbatim>\<open>OverflowError\<close> of a quotient beyond the doubles, which
  cannot happen when the number of sessions and every duration are inside that range.
  For a non-empty session list on which the call returns and every adjacent pair of
  stages, \<^verbatim>\<open>conversion_rates\<close> holds \<^verbatim>\<open>stage_entries[to] / stage_entries[from]\<close> under
  the key \<^verbatim>\<open>from_to_to\<close> when \<^verbatim>\<open>stage_entries[from] > 0\<close>, and holds no entry for the
  pair when \<^verbatim>\<open>stage_entries[from]\<close> is 0.
\<close>

theorem C3_conversion_rate_per_adjacent_pair:
  "calculate_funnel_metrics ss \<noteq> Inl ZeroDivisionError \<and>
   (in_float_range ss \<longrightarrow> (\<exists>r. calculate_funnel_metrics ss = Inr r)) \<and>
   (ss \<noteq> [] \<longrightarrow> calculate_funnel_metrics ss \<noteq> Inl OverflowError \<longrightarrow>
    i + 1 < length STAGE_ORDER \<longrightarrow>
      (\<exists>r. calculate_funnel_metrics ss = Inr r) \<and>
      (\<exists>a b.
         int_entry (calculate_funnel_metrics ss) ''stage_entries'' (STAGE_ORDER ! i) = Some a \<and>
         int_entry (calculate_funnel_metrics ss) ''stage_entries'' (STAGE_ORDER ! (i + 1)) = Some b \<and>
         float_entry (calculate_funnel_metrics ss) ''conversion_rates''
             (STAGE_ORDER ! i @ ''_to_'' @ STAGE_ORDER ! (i + 1)) =
           (if 0 < a then Some (of_int b / of_int a) else None)))"
proof -
  have z: "calculate_funnel_metrics ss \<noteq> Inl ZeroDivisionError"
    using calculate_raises_only_overflow [of ss ZeroDivisionError] by auto
  have g: "\<exists>r. calculate_funnel_metrics ss = Inr r" if "in_float_range ss"
  proof (cases "calculate_funnel_metrics ss")
    case (Inl e)
    then have "e = OverflowError" by (rule calculate_raises_only_overflow)
    with Inl calculate_in_range [OF that] show ?thesis by simp
  next
    case (Inr r)
    then show ?thesis by blast
  qed
  have p: "(\<exists>r. calculate_funnel_metrics ss = Inr r) \<and>
      (\<exists>a b.
         int_entry (calculate_funnel_metrics ss) ''stage_entries'' (STAGE_ORDER ! i) = Some a \<and>
         int_entry (calculate_funnel_metrics ss) ''stage_entries'' (STAGE_ORDER ! (i + 1)) = Some b \<and>
         float_entry (calculate_funnel_metrics ss) ''conversion_rates''
             (STAGE_ORDER ! i @ ''_to_'' @ STAGE_ORDER ! (i + 1)) =
           (if 0 < a then Some (of_int b / of_int a) else None))"
    if n: "ss \<noteq> []" and ok: "calculate_funnel_metrics ss \<noteq> Inl OverflowError"
      and i: "i + 1 < length STAGE_ORDER"
  proof -
    from i have a: "i + 1 < 5" and b: "i < 5" and c: "i < 4"
      by (simp_all add: length_STAGE_ORDER)
    let ?e = "stage_entries (final_state ss)"
    have u: "?e (STAGE_ORDER ! (i + 1)) = Some (count_sessions (reached (STAGE_ORDER ! (i + 1))) ss)"
      by (rule final_counts [OF stage_nth_mem [OF a]])
    have l: "?e (STAGE_ORDER ! i) = Some (count_sessions (reached (STAGE_ORDER ! i)) ss)"
      by (rule final_counts [OF stage_nth_mem [OF b]])
    have r: "float_entry (calculate_funnel_metrics ss) ''conversion_rates'' (rate_key i) =
               (if 0 < count_sessions (reached (STAGE_ORDER ! i)) ss
                then Some (of_int (count_sessions (reached (STAGE_ORDER ! (i + 1))) ss) /
                           of_int (count_sessions (reached (STAGE_ORDER ! i)) ss))
                else None)"
      unfolding float_entry_def metric_nonempty [OF n ok]
      using conversion_rate_lookup [OF c, of ?e]
      unfolding u l get_or_def by simp
    have "\<exists>r. calculate_funnel_metrics ss = Inr r"
      using calculate_returns [OF n ok] by blast
    moreover have "int_entry (calculate_funnel_metrics ss) ''stage_entries'' (STAGE_ORDER ! i) =
        Some (count_sessions (reached (STAGE_ORDER ! i)) ss)"
      by (rule stage_entries_entry [OF n ok stage_nth_mem [OF b]])
    moreover have "int_entry (calculate_funnel_metrics ss) ''stage_entries'' (STAGE_ORDER ! (i + 1)) =
        Some (count_sessions (reached (STAGE_ORDER ! (i + 1))) ss)"
      by (rule stage_entries_entry [OF n ok stage_nth_mem [OF a]])
    ultimately show ?thesis
      using r unfolding rate_key_def by blast
  qed
  from z g p show ?thesis by blast
qed

theorem C3_witness:
  "three_completed \<noteq> [] \<and> calculate_funnel_metrics three_completed \<noteq> Inl OverflowError \<and>
   in_float_range three_completed \<and> 2 + 1 < length STAGE_ORDER \<and>
   int_entry (calculate_funnel_metrics three_completed) ''stage_entries'' (STAGE_ORDER ! 2) = Some 3 \<and>
   int_entry (calculate_funnel_metrics three_completed) ''stage_entries'' (STAGE_ORDER ! (2 + 1)) = Some 2 \<and>
   float_entry (calculate_funnel_metrics three_completed) ''conversion_rates''
       (STAGE_ORDER ! 2 @ ''_to_'' @ STAGE_ORDER ! (2 + 1)) = Some (2 / 3)"
proof -
  have n: "three_completed \<noteq> []" by (simp add: three_completed_def)
  have ok: "calculate_funnel_metrics three_completed \<noteq> Inl OverflowError"
    by (simp add: three_completed_def run_defs)
  have g: "in_float_range three_completed"
    by (simp add: three_completed_def in_float_range_def example_session_def duration_of_def
        get_or_def float_overflow_def overflow_bound_def)
  have l: "2 + 1 < length STAGE_ORDER" by (simp add: STAGE_ORDER_def)
  have a: "int_entry (calculate_funnel_metrics three_completed) ''stage_entries'' (STAGE_ORDER ! 2) = Some 3"
    by (simp add: three_completed_def run_defs)
  have b: "int_entry (calculate_funnel_metrics three_completed) ''stage_entries'' (STAGE_ORDER ! (2 + 1)) = Some 2"
    by (simp add: three_completed_def run_defs)
  from C3_conversion_rate_per_adjacent_pair [of three_completed 2] n ok l a b
  have "float_entry (calculate_funnel_metrics three_completed) ''conversion_rates''
       (STAGE_ORDER ! 2 @ ''_to_'' @ STAGE_ORDER ! (2 + 1)) = Some (2 / 3)"
    by auto
  with n ok g l a b show ?thesis by blast
qed

text \<open>
  Claim C3 as stated asks for a rate of 0, present in the dict, for a pair whose earlier
  stage has no entries. One session that reached widget activation only leaves
  \<^verbatim>\<open>stage_entries['search_configuration']\<close> at 0, and the dict has no key
  \<^verbatim>\<open>search_configuration_to_room_selection\<close>.
\<close>

theorem C3_counterexample:
  "int_entry (calculate_funnel_metrics widget_only) ''stage_entries'' ''search_configuration'' = Some 0 \<and>
   float_entry (calculate_funnel_metrics widget_only) ''conversion_rates''
     ''search_configuration_to_room_selection'' = None \<and>
   float_entry (calculate_funnel_metrics widget_only) ''conversion_rates''
     ''search_configuration_to_room_selection'' \<noteq> Some 0"
  by (simp add: widget_only_def run_defs)

lemma reached_widget_fun: "reached ''widget_activation'' = (\<lambda>s. stage_of s \<in> set STAGE_ORDER)"
  by (rule ext) (rule reached_widget)

lemma widget_mem: "''widget_activation'' \<in> set STAGE_ORDER"
  by (simp add: STAGE_ORDER_def)

lemma overall_nonempty:
  assumes "ss \<noteq> []" and "calculate_funnel_metrics ss \<noteq> Inl OverflowError"
  shows "metric (calculate_funnel_metrics ss) ''overall_conversion'' =
           Some (if 0 < count_sessions (\<lambda>s. stage_of s \<in> set STAGE_ORDER) ss
                 then FloatV (of_int (count_sessions completed_of ss) /
                              of_int (count_sessions (\<lambda>s. stage_of s \<in> set STAGE_ORDER) ss))
                 else IntV 0)"
  by (simp add: metric_nonempty [OF assms] overall_pure_def final_counts [OF widget_mem]
      final_totals reached_widget_fun get_or_def)

section \<open>Overall conversion\<close>

text \<open>
  Claim C5, as amended. For a non-empty session list on which the call returns (it raises
  \<^verbatim>\<open>OverflowError\<close> only when a quotient leaves the range of the doubles),
  \<^verbatim>\<open>overall_conversion\<close> is \<^verbatim>\<open>completed_sessions / stage_entries['widget_activation']\<close>,
  and 0 when that denominator is 0; it is never negative, and it is at most 1 when every
  completed session has its furthest stage in \<^const>\<open>STAGE_ORDER\<close>.
\<close>

theorem C5_overall_conversion:
  assumes "ss \<noteq> []" and "calculate_funnel_metrics ss \<noteq> Inl OverflowError"
  shows "\<exists>c e q.
           metric (calculate_funnel_metrics ss) ''completed_sessions'' = Some (IntV c) \<and>
           int_entry (calculate_funnel_metrics ss) ''stage_entries'' ''widget_activation'' = Some e \<and>
           metric (calculate_funnel_metrics ss) ''overall_conversion'' =
             Some (if 0 < e then FloatV (of_int c / of_int e) else IntV 0) \<and>
           number_metric (calculate_funnel_metrics ss) ''overall_conversion'' = Some q \<and>
           0 \<le> q \<and>
           ((\<forall>s \<in> set ss. completed_of s \<longrightarrow> stage_of s \<in> set STAGE_ORDER) \<longrightarrow> q \<le> 1)"
proof -
  let ?c = "count_sessions completed_of ss"
  let ?e = "count_sessions (\<lambda>s. stage_of s \<in> set STAGE_ORDER) ss"
  let ?q = "if 0 < ?e then of_int ?c / of_int ?e else (0::rat)"
  have c: "metric (calculate_funnel_metrics ss) ''completed_sessions'' = Some (IntV ?c)"
    by (simp add: metric_nonempty [OF assms] final_totals)
  have e: "int_entry (calculate_funnel_metrics ss) ''stage_entries'' ''widget_activation'' = Some ?e"
    by (simp add: stage_entries_entry [OF assms widget_mem] reached_widget_fun)
  have o: "metric (calculate_funnel_metrics ss) ''overall_conversion'' =
             Some (if 0 < ?e then FloatV (of_int ?c / of_int ?e) else IntV 0)"
    by (rule overall_nonempty [OF assms])
  have n: "number_metric (calculate_funnel_metrics ss) ''overall_conversion'' = Some ?q"
    by (simp add: number_metric_def o)
  have p: "0 \<le> ?q"
    by (simp add: count_sessions_nonneg)
  have u: "?q \<le> 1" if "\<forall>s \<in> set ss. completed_of s \<longrightarrow> stage_of s \<in> set STAGE_ORDER"
  proof -
    have "?c \<le> ?e"
      by (rule count_sessions_mono) (use that in blast)
    then show ?thesis
      by (simp add: divide_le_eq_1_pos)
  qed
  from c e o n p u show ?thesis by blast
qed

theorem C5_witness:
  "three_completed \<noteq> [] \<and>
   calculate_funnel_metrics three_completed \<noteq> Inl OverflowError \<and>
   metric (calculate_funnel_metrics three_completed) ''completed_sessions'' = Some (IntV 3) \<and>
   int_entry (calculate_funnel_metrics three_completed) ''stage_entries'' ''widget_activation'' = Some 3 \<and>
   number_metric (calculate_funnel_metrics three_completed) ''overall_conversion'' = Some 1 \<and>
   (1::rat) \<le> 1"
proof -
  have n: "three_completed \<noteq> []" by (simp add: three_completed_def)
  have ok: "calculate_funnel_metrics three_completed \<noteq> Inl OverflowError"
    by (simp add: three_completed_def run_defs)
  have h: "\<forall>s \<in> set three_completed. completed_of s \<longrightarrow> stage_of s \<in> set STAGE_ORDER"
    by (simp add: three_completed_def example_session_def stage_of_def get_or_def STAGE_ORDER_def)
  have c: "metric (calculate_funnel_metrics three_completed) ''completed_sessions'' = Some (IntV 3)"
    by (simp add: three_completed_def run_defs)
  have e: "int_entry (calculate_funnel_metrics three_completed) ''stage_entries'' ''widget_activation'' = Some 3"
    by (simp add: three_completed_def run_defs)
  have q: "number_metric (calculate_funnel_metrics three_completed) ''overall_conversion'' = Some 1"
    by (simp add: three_completed_def run_defs)
  from C5_overall_conversion [OF n ok] h q have "(1::rat) \<le> 1" by auto
  with n ok c e q show ?thesis by blast
qed

text \<open>
  Claim C5 as stated bounds the ratio by 1 for every input. A completed session whose
  furthest stage is not a stage of the funnel raises \<^verbatim>\<open>total_completed\<close> and no stage
  entry: with one session at widget activation and two such completed sessions the
  ratio is 2.
\<close>

theorem C5_counterexample:
  "metric (calculate_funnel_metrics completed_outside) ''completed_sessions'' = Some (IntV 2) \<and>
   int_entry (calculate_funnel_metrics completed_outside) ''stage_entries'' ''widget_activation'' = Some 1 \<and>
   number_metric (calculate_funnel_metrics completed_outside) ''overall_conversion'' = Some 2 \<and>
   \<not> (2::rat) \<le> 1"
  by (simp add: completed_outside_def run_defs)

text \<open>
  Claim C8, as amended. Among ten sessions on which the call returns, when exactly five
  have their furthest stage in \<^const>\<open>STAGE_ORDER\<close> (they are the sessions
  \<^verbatim>\<open>stage_entries['widget_activation']\<close> counts) and exactly one session is completed,
  \<^verbatim>\<open>overall_conversion\<close> is 1/5.
\<close>

theorem C8_one_completed_of_five_entered:
  assumes "length ss = 10"
    and "count_sessions (\<lambda>s. stage_of s \<in> set STAGE_ORDER) ss = 5"
    and "count_sessions completed_of ss = 1"
    and "calculate_funnel_metrics ss \<noteq> Inl OverflowError"
  shows "int_entry (calculate_funnel_metrics ss) ''stage_entries'' ''widget_activation'' = Some 5 \<and>
         metric (calculate_funnel_metrics ss) ''completed_sessions'' = Some (IntV 1) \<and>
         metric (calculate_funnel_metrics ss) ''overall_conversion'' = Some (FloatV (1 / 5))"
proof -
  from assms(1) have n: "ss \<noteq> []" by auto
  note ok = assms(4)
  show ?thesis
    using assms(2,3)
    by (simp add: overall_nonempty [OF n ok] stage_entries_entry [OF n ok widget_mem]
        reached_widget_fun metric_nonempty [OF n ok] final_totals)
qed

theorem C8_witness:
  "length ten_sessions_five_entered = 10 \<and>
   count_sessions (\<lambda>s. stage_of s \<in> set STAGE_ORDER) ten_sessions_five_entered = 5 \<and>
   count_sessions completed_of ten_sessions_five_entered = 1 \<and>
   calculate_funnel_metrics ten_sessions_five_entered \<noteq> Inl OverflowError \<and>
   metric (calculate_funnel_metrics ten_sessions_five_entered) ''overall_conversion'' =
     Some (FloatV (1 / 5))"
proof -
  have l: "length ten_sessions_five_entered = 10"
    by (simp add: ten_sessions_five_entered_def)
  have e: "count_sessions (\<lambda>s. stage_of s \<in> set STAGE_ORDER) ten_sessions_five_entered = 5"
    by (simp add: ten_sessions_five_entered_def count_sessions_def example_session_def
        stage_of_def get_or_def STAGE_ORDER_def)
  have c: "count_sessions completed_of ten_sessions_five_entered = 1"
    by (simp add: ten_sessions_five_entered_def count_sessions_def example_session_def
        completed_of_def get_or_def)
  have ok: "calculate_funnel_metrics ten_sessions_five_entered \<noteq> Inl OverflowError"
    by (simp add: ten_sessions_five_entered_def replicate_unfold run_defs)
  from C8_one_completed_of_five_entered [OF l e c ok] l e c ok show ?thesis by blast
qed

text \<open>
  Claim C8 as stated: five sessions reach widget activation only and one completes the
  booking. The completing session is filled into widget activation too, so six sessions
  entered and the ratio is 1/6.
\<close>

theorem C8_counterexample:
  "length ten_sessions = 10 \<and>
   int_entry (calculate_funnel_metrics ten_sessions) ''stage_entries'' ''widget_activation'' = Some 6 \<and>
   metric (calculate_funnel_metrics ten_sessions) ''completed_sessions'' = Some (IntV 1) \<and>
   metric (calculate_funnel_metrics ten_sessions) ''overall_conversion'' = Some (FloatV (1 / 6)) \<and>
   (1 / 6 :: rat) \<noteq> 1 / 5"
  by (simp add: ten_sessions_def replicate_unfold run_defs)

section \<open>One session among the others\<close>

lemma final_state_unknown:
  assumes "stage_of s \<notin> set STAGE_ORDER"
  shows "stage_entries (final_state (xs @ s # ys)) = stage_entries (final_state (xs @ ys))"
    and "stage_completions (final_state (xs @ s # ys)) = stage_completions (final_state (xs @ ys))"
    and "stage_abandonments (final_state (xs @ s # ys)) = stage_abandonments (final_state (xs @ ys))"
    and "stage_durations (final_state (xs @ s # ys)) = stage_durations (final_state (xs @ ys))"
    and "navigation_by_stage (final_state (xs @ s # ys)) = navigation_by_stage (final_state (xs @ ys))"
  unfolding final_state_def fold_fields
  using assms by (simp_all add: steps_unknown abandonments_step_miss)

lemma final_state_Nil:
  "stage_entries (final_state []) = zero_counters"
  "stage_completions (final_state []) = zero_counters"
  "stage_abandonments (final_state []) = zero_counters"
  "stage_durations (final_state []) = []"
  "navigation_by_stage (final_state []) = Map.empty"
  by (simp_all add: final_state_def init_state_def)

lemma overall_overflows_unknown:
  assumes "stage_of s \<notin> set STAGE_ORDER"
    and "overall_overflows (final_state (xs @ ys))"
  shows "overall_overflows (final_state (xs @ s # ys))"
proof -
  let ?e = "get_or (stage_entries (final_state (xs @ ys)) ''widget_activation'') 0"
  let ?c = "count_sessions completed_of (xs @ ys)"
  let ?c' = "count_sessions completed_of (xs @ s # ys)"
  from assms(2) have e: "0 < ?e" and o: "float_overflow (of_int ?c / of_int ?e)"
    by (simp_all add: overall_overflows_def final_totals)
  have c: "0 \<le> ?c" "?c \<le> ?c'"
    by (simp_all add: count_sessions_nonneg count_sessions_insert)
  have "(0::rat) \<le> of_int ?c / of_int ?e" using e c(1) by simp
  moreover have "(of_int ?c / of_int ?e :: rat) \<le> of_int ?c' / of_int ?e"
    using e c(2) by (simp add: divide_right_mono)
  ultimately have "\<bar>of_int ?c / of_int ?e :: rat\<bar> \<le> \<bar>of_int ?c' / of_int ?e\<bar>"
    by linarith
  then have "float_overflow (of_int ?c' / of_int ?e)"
    using o by (rule float_overflow_mono)
  with e show ?thesis
    by (simp add: overall_overflows_def final_totals final_state_unknown [OF assms(1)])
qed

lemma returns_without_unknown:
  assumes "stage_of s \<notin> set STAGE_ORDER" and "xs @ ys \<noteq> []"
    and "calculate_funnel_metrics (xs @ s # ys) \<noteq> Inl OverflowError"
  shows "calculate_funnel_metrics (xs @ ys) \<noteq> Inl OverflowError"
proof -
  have n: "xs @ s # ys \<noteq> []" by simp
  from assms(3) have "\<not> overall_overflows (final_state (xs @ s # ys))"
    and a: "\<not> average_overflows (stage_durations (final_state (xs @ s # ys)))"
    unfolding calculate_nonempty [OF n] by (simp_all split: if_splits)
  then have "\<not> overall_overflows (final_state (xs @ ys))"
    using overall_overflows_unknown [OF assms(1)] by blast
  moreover have "\<not> average_overflows (stage_durations (final_state (xs @ ys)))"
    using a by (simp add: final_state_unknown [OF assms(1)])
  ultimately show ?thesis
    unfolding calculate_nonempty [OF assms(2)] by simp
qed

text \<open>
  Claim C7. Take any session list on which the call returns (it raises
  \<^verbatim>\<open>OverflowError\<close> only when a quotient leaves the range of the doubles). A session of
  the list whose furthest stage is not in \<^const>\<open>STAGE_ORDER\<close> (the string
  \<^verbatim>\<open>'unknown'\<close>, an absent key, or any other string) adds 1 to
  \<^verbatim>\<open>total_sessions\<close> and, according to its flags, 1 to \<^verbatim>\<open>completed_sessions\<close> and
  \<^verbatim>\<open>abandoned_sessions\<close>. The call on the other sessions returns too, and the five
  stage-keyed dicts are the ones it gives; when the session is the only one they are
  the initial ones.
\<close>

theorem C7_unknown_stage_counts_in_totals_only:
  assumes "stage_of s \<notin> set STAGE_ORDER"
    and "calculate_funnel_metrics (xs @ s # ys) \<noteq> Inl OverflowError"
  shows "metric (calculate_funnel_metrics (xs @ s # ys)) ''total_sessions'' =
           Some (IntV (int (length (xs @ ys)) + 1)) \<and>
         metric (calculate_funnel_metrics (xs @ s # ys)) ''completed_sessions'' =
           Some (IntV (count_sessions completed_of (xs @ ys) + (if completed_of s then 1 else 0))) \<and>
         metric (calculate_funnel_metrics (xs @ s # ys)) ''abandoned_sessions'' =
           Some (IntV (count_sessions abandoned_of (xs @ ys) + (if abandoned_of s then 1 else 0))) \<and>
         (xs @ ys \<noteq> [] \<longrightarrow>
            calculate_funnel_metrics (xs @ ys) \<noteq> Inl OverflowError \<and>
            metric (calculate_funnel_metrics (xs @ ys)) ''total_sessions'' =
              Some (IntV (int (length (xs @ ys)))) \<and>
            metric (calculate_funnel_metrics (xs @ ys)) ''completed_sessions'' =
              Some (IntV (count_sessions completed_of (xs @ ys))) \<and>
            metric (calculate_funnel_metrics (xs @ ys)) ''abandoned_sessions'' =
              Some (IntV (count_sessions abandoned_of (xs @ ys))) \<and>
            (\<forall>key \<in> {''stage_entries'', ''stage_completions'', ''stage_abandonments'',
                      ''avg_durations'', ''navigation_by_stage''}.
               metric (calculate_funnel_metrics (xs @ s # ys)) key =
               metric (calculate_funnel_metrics (xs @ ys)) key)) \<and>
         (xs @ ys = [] \<longrightarrow>
            metric (calculate_funnel_metrics (xs @ s # ys)) ''stage_entries'' =
              Some (IntDictV zero_counters) \<and>
            metric (calculate_funnel_metrics (xs @ s # ys)) ''stage_completions'' =
              Some (IntDictV zero_counters) \<and>
            metric (calculate_funnel_metrics (xs @ s # ys)) ''stage_abandonments'' =
              Some (IntDictV zero_counters) \<and>
            metric (calculate_funnel_metrics (xs @ s # ys)) ''avg_durations'' =
              Some (FloatDictV Map.empty) \<and>
            metric (calculate_funnel_metrics (xs @ s # ys)) ''navigation_by_stage'' =
              Some (IntDictV Map.empty))"
proof -
  have n: "xs @ s # ys \<noteq> []" by simp
  note ok = assms(2)
  note m = metric_nonempty [OF n ok]
  note u = final_state_unknown [OF assms(1), of xs ys]
  have t: "metric (calculate_funnel_metrics (xs @ s # ys)) ''total_sessions'' =
           Some (IntV (int (length (xs @ ys)) + 1))"
    by (simp add: totals_nonempty [OF n ok])
  have c: "metric (calculate_funnel_metrics (xs @ s # ys)) ''completed_sessions'' =
           Some (IntV (count_sessions completed_of (xs @ ys) + (if completed_of s then 1 else 0)))"
    unfolding totals_nonempty [OF n ok] count_sessions_insert ..
  have a: "metric (calculate_funnel_metrics (xs @ s # ys)) ''abandoned_sessions'' =
           Some (IntV (count_sessions abandoned_of (xs @ ys) + (if abandoned_of s then 1 else 0)))"
    unfolding totals_nonempty [OF n ok] count_sessions_insert ..
  have others: "calculate_funnel_metrics (xs @ ys) \<noteq> Inl OverflowError \<and>
            metric (calculate_funnel_metrics (xs @ ys)) ''total_sessions'' =
              Some (IntV (int (length (xs @ ys)))) \<and>
            metric (calculate_funnel_metrics (xs @ ys)) ''completed_sessions'' =
              Some (IntV (count_sessions completed_of (xs @ ys))) \<and>
            metric (calculate_funnel_metrics (xs @ ys)) ''abandoned_sessions'' =
              Some (IntV (count_sessions abandoned_of (xs @ ys))) \<and>
            (\<forall>key \<in> {''stage_entries'', ''stage_completions'', ''stage_abandonments'',
                      ''avg_durations'', ''navigation_by_stage''}.
               metric (calculate_funnel_metrics (xs @ s # ys)) key =
               metric (calculate_funnel_metrics (xs @ ys)) key)"
    if r: "xs @ ys \<noteq> []"
  proof -
    have ok': "calculate_funnel_metrics (xs @ ys) \<noteq> Inl OverflowError"
      by (rule returns_without_unknown [OF assms(1) r ok])
    show ?thesis
      using ok' totals_nonempty [OF r ok'] by (simp add: m metric_nonempty [OF r ok'] u)
  qed
  have alone: "metric (calculate_funnel_metrics (xs @ s # ys)) ''stage_entries'' =
              Some (IntDictV zero_counters) \<and>
            metric (calculate_funnel_metrics (xs @ s # ys)) ''stage_completions'' =
              Some (IntDictV zero_counters) \<and>
            metric (calculate_funnel_metrics (xs @ s # ys)) ''stage_abandonments'' =
              Some (IntDictV zero_counters) \<and>
            metric (calculate_funnel_metrics (xs @ s # ys)) ''avg_durations'' =
              Some (FloatDictV Map.empty) \<and>
            metric (calculate_funnel_metrics (xs @ s # ys)) ''navigation_by_stage'' =
              Some (IntDictV Map.empty)"
    if r: "xs @ ys = []"
    unfolding m u r final_state_Nil by simp
  from t c a others alone show ?thesis by blast
qed

theorem C7_witness:
  "stage_of unknown_session \<notin> set STAGE_ORDER \<and>
   calculate_funnel_metrics (widget_only @ unknown_session # []) \<noteq> Inl OverflowError \<and>
   calculate_funnel_metrics ([] @ unknown_session # []) \<noteq> Inl OverflowError \<and>
   metric (calculate_funnel_metrics (widget_only @ unknown_session # [])) ''total_sessions'' =
     Some (IntV 2) \<and>
   metric (calculate_funnel_metrics (widget_only @ unknown_session # [])) ''completed_sessions'' =
     Some (IntV 1) \<and>
   metric (calculate_funnel_metrics (widget_only @ unknown_session # [])) ''abandoned_sessions'' =
     Some (IntV 1) \<and>
   metric (calculate_funnel_metrics (widget_only @ unknown_session # [])) ''stage_entries'' =
     metric (calculate_funnel_metrics (widget_only @ [])) ''stage_entries'' \<and>
   metric (calculate_funnel_metrics (widget_only @ unknown_session # [])) ''avg_durations'' =
     metric (calculate_funnel_metrics (widget_only @ [])) ''avg_durations'' \<and>
   metric (calculate_funnel_metrics ([] @ unknown_session # [])) ''stage_entries'' =
     Some (IntDictV zero_counters)"
proof -
  have u: "stage_of unknown_session \<notin> set STAGE_ORDER"
    by (simp add: unknown_session_def example_session_def stage_of_def get_or_def STAGE_ORDER_def)
  have f: "completed_of unknown_session" "abandoned_of unknown_session"
    by (simp_all add: unknown_session_def example_session_def completed_of_def abandoned_of_def
        get_or_def)
  have ok1: "calculate_funnel_metrics (widget_only @ unknown_session # []) \<noteq> Inl OverflowError"
    by (simp add: widget_only_def unknown_session_def run_defs)
  have ok2: "calculate_funnel_metrics ([] @ unknown_session # []) \<noteq> Inl OverflowError"
    by (simp add: unknown_session_def run_defs)
  have w: "widget_only @ [] \<noteq> []"
    "count_sessions completed_of (widget_only @ []) = 0"
    "count_sessions abandoned_of (widget_only @ []) = 0"
    "int (length (widget_only @ [])) = 1"
    by (simp_all add: widget_only_def example_session_def count_sessions_def completed_of_def
        abandoned_of_def get_or_def)
  note t1 = C7_unknown_stage_counts_in_totals_only [OF u ok1]
  note t2 = C7_unknown_stage_counts_in_totals_only [OF u ok2]
  from t1 have "metric (calculate_funnel_metrics (widget_only @ unknown_session # [])) ''total_sessions'' =
     Some (IntV 2)"
    unfolding w by simp
  moreover from t1 have
    "metric (calculate_funnel_metrics (widget_only @ unknown_session # [])) ''completed_sessions'' =
     Some (IntV 1)"
    "metric (calculate_funnel_metrics (widget_only @ unknown_session # [])) ''abandoned_sessions'' =
     Some (IntV 1)"
    unfolding w using f by simp_all
  moreover from t1 w(1) have
    "metric (calculate_funnel_metrics (widget_only @ unknown_session # [])) ''stage_entries'' =
     metric (calculate_funnel_metrics (widget_only @ [])) ''stage_entries''"
    "metric (calculate_funnel_metrics (widget_only @ unknown_session # [])) ''avg_durations'' =
     metric (calculate_funnel_metrics (widget_only @ [])) ''avg_durations''"
    by simp_all
  moreover from t2 have
    "metric (calculate_funnel_metrics ([] @ unknown_session # [])) ''stage_entries'' =
     Some (IntDictV zero_counters)"
    by simp
  ultimately show ?thesis using u ok1 ok2 by blast
qed

lemma reached_index:
  assumes "list_index STAGE_ORDER (stage_of s) = Inr j" and "i < 5"
  shows "reached (STAGE_ORDER ! i) s \<longleftrightarrow> i \<le> j"
  using assms by (simp add: reached_nth)

lemma stage_of_index:
  assumes "list_index STAGE_ORDER (stage_of s) = Inr j"
  shows "stage_of s \<in> set STAGE_ORDER"
  using assms list_index_Inr_iff [of STAGE_ORDER "stage_of s"] by blast

section \<open>Completed and abandoned at once\<close>

text \<open>
  Claim C10. Take any session list on which the call returns (it raises
  \<^verbatim>\<open>OverflowError\<close> only when a quotient leaves the range of the doubles). A session of
  the list that is both completed and abandoned, with its furthest stage at position
  \<open>j\<close> of \<^const>\<open>STAGE_ORDER\<close>, adds 1 to \<^verbatim>\<open>completed_sessions\<close>, 1 to
  \<^verbatim>\<open>stage_completions\<close> of every stage at a position up to \<open>j\<close> (and nothing beyond),
  1 to \<^verbatim>\<open>abandoned_sessions\<close> and 1 to \<^verbatim>\<open>stage_abandonments\<close> of its furthest
  stage, over what the other sessions give (when the call on them returns). Neither flag
  suppresses the other, so the two totals can add up to more than \<^verbatim>\<open>total_sessions\<close>.
\<close>

theorem C10_completed_and_abandoned_both_counted:
  assumes "completed_of s" and "abandoned_of s"
    and "list_index STAGE_ORDER (stage_of s) = Inr j"
    and "calculate_funnel_metrics (xs @ s # ys) \<noteq> Inl OverflowError"
  shows "metric (calculate_funnel_metrics (xs @ s # ys)) ''total_sessions'' =
           Some (IntV (int (length (xs @ ys)) + 1)) \<and>
         metric (calculate_funnel_metrics (xs @ s # ys)) ''completed_sessions'' =
           Some (IntV (count_sessions completed_of (xs @ ys) + 1)) \<and>
         metric (calculate_funnel_metrics (xs @ s # ys)) ''abandoned_sessions'' =
           Some (IntV (count_sessions abandoned_of (xs @ ys) + 1)) \<and>
         int_entry (calculate_funnel_metrics (xs @ s # ys)) ''stage_abandonments'' (stage_of s) =
           Some (count_sessions (\<lambda>t. abandoned_of t \<and> stage_of t = stage_of s) (xs @ ys) + 1) \<and>
         (\<forall>i<5.
            int_entry (calculate_funnel_metrics (xs @ s # ys)) ''stage_completions'' (STAGE_ORDER ! i) =
              Some (count_sessions (\<lambda>t. completed_of t \<and> reached (STAGE_ORDER ! i) t) (xs @ ys) +
                    (if i \<le> j then 1 else 0))) \<and>
         (xs @ ys \<noteq> [] \<longrightarrow> calculate_funnel_metrics (xs @ ys) \<noteq> Inl OverflowError \<longrightarrow>
            metric (calculate_funnel_metrics (xs @ ys)) ''total_sessions'' =
              Some (IntV (int (length (xs @ ys)))) \<and>
            metric (calculate_funnel_metrics (xs @ ys)) ''completed_sessions'' =
              Some (IntV (count_sessions completed_of (xs @ ys))) \<and>
            metric (calculate_funnel_metrics (xs @ ys)) ''abandoned_sessions'' =
              Some (IntV (count_sessions abandoned_of (xs @ ys))) \<and>
            int_entry (calculate_funnel_metrics (xs @ ys)) ''stage_abandonments'' (stage_of s) =
              Some (count_sessions (\<lambda>t. abandoned_of t \<and> stage_of t = stage_of s) (xs @ ys)) \<and>
            (\<forall>i<5.
               int_entry (calculate_funnel_metrics (xs @ ys)) ''stage_completions'' (STAGE_ORDER ! i) =
                 Some (count_sessions (\<lambda>t. completed_of t \<and> reached (STAGE_ORDER ! i) t) (xs @ ys))))"
proof -
  have n: "xs @ s # ys \<noteq> []" by simp
  note ok = assms(4)
  have k: "stage_of s \<in> set STAGE_ORDER" by (rule stage_of_index [OF assms(3)])
  have t: "metric (calculate_funnel_metrics (xs @ s # ys)) ''total_sessions'' =
           Some (IntV (int (length (xs @ ys)) + 1))"
    by (simp add: totals_nonempty [OF n ok])
  have c: "metric (calculate_funnel_metrics (xs @ s # ys)) ''completed_sessions'' =
           Some (IntV (count_sessions completed_of (xs @ ys) + 1))"
    unfolding totals_nonempty [OF n ok] count_sessions_insert using assms(1) by simp
  have a: "metric (calculate_funnel_metrics (xs @ s # ys)) ''abandoned_sessions'' =
           Some (IntV (count_sessions abandoned_of (xs @ ys) + 1))"
    unfolding totals_nonempty [OF n ok] count_sessions_insert using assms(2) by simp
  have sa: "int_entry (calculate_funnel_metrics (xs @ s # ys)) ''stage_abandonments'' (stage_of s) =
           Some (count_sessions (\<lambda>t. abandoned_of t \<and> stage_of t = stage_of s) (xs @ ys) + 1)"
    unfolding stage_abandonments_entry [OF n ok k] count_sessions_insert using assms(2) by simp
  have sc: "int_entry (calculate_funnel_metrics (xs @ s # ys)) ''stage_completions'' (STAGE_ORDER ! i) =
              Some (count_sessions (\<lambda>t. completed_of t \<and> reached (STAGE_ORDER ! i) t) (xs @ ys) +
                    (if i \<le> j then 1 else 0))" if "i < 5" for i
    unfolding stage_completions_entry [OF n ok stage_nth_mem [OF that]] count_sessions_insert
    using assms(1) reached_index [OF assms(3) that] by simp
  have others: "metric (calculate_funnel_metrics (xs @ ys)) ''total_sessions'' =
              Some (IntV (int (length (xs @ ys)))) \<and>
            metric (calculate_funnel_metrics (xs @ ys)) ''completed_sessions'' =
              Some (IntV (count_sessions completed_of (xs @ ys))) \<and>
            metric (calculate_funnel_metrics (xs @ ys)) ''abandoned_sessions'' =
              Some (IntV (count_sessions abandoned_of (xs @ ys))) \<and>
            int_entry (calculate_funnel_metrics (xs @ ys)) ''stage_abandonments'' (stage_of s) =
              Some (count_sessions (\<lambda>t. abandoned_of t \<and> stage_of t = stage_of s) (xs @ ys)) \<and>
            (\<forall>i<5.
               int_entry (calculate_funnel_metrics (xs @ ys)) ''stage_completions'' (STAGE_ORDER ! i) =
                 Some (count_sessions (\<lambda>t. completed_of t \<and> reached (STAGE_ORDER ! i) t) (xs @ ys)))"
    if r: "xs @ ys \<noteq> []" and ok': "calculate_funnel_metrics (xs @ ys) \<noteq> Inl OverflowError"
    using totals_nonempty [OF r ok'] stage_abandonments_entry [OF r ok' k]
      stage_completions_entry [OF r ok' stage_nth_mem]
    by simp
  from t c a sa sc others show ?thesis by blast
qed

theorem C10_witness:
  "completed_of both_flags \<and> abandoned_of both_flags \<and>
   list_index STAGE_ORDER (stage_of both_flags) = Inr 3 \<and>
   calculate_funnel_metrics ([] @ both_flags # []) \<noteq> Inl OverflowError \<and>
   metric (calculate_funnel_metrics ([] @ both_flags # [])) ''total_sessions'' = Some (IntV 1) \<and>
   metric (calculate_funnel_metrics ([] @ both_flags # [])) ''completed_sessions'' = Some (IntV 1) \<and>
   metric (calculate_funnel_metrics ([] @ both_flags # [])) ''abandoned_sessions'' = Some (IntV 1) \<and>
   int_entry (calculate_funnel_metrics ([] @ both_flags # [])) ''stage_abandonments''
     ''rate_selection'' = Some 1 \<and>
   int_entry (calculate_funnel_metrics ([] @ both_flags # [])) ''stage_completions''
     (STAGE_ORDER ! 3) = Some 1 \<and>
   int_entry (calculate_funnel_metrics ([] @ both_flags # [])) ''stage_completions''
     (STAGE_ORDER ! 4) = Some 0 \<and>
   (1::int) + 1 > 1"
proof -
  have c: "completed_of both_flags" and a: "abandoned_of both_flags"
    by (simp_all add: both_flags_def example_session_def completed_of_def abandoned_of_def
        get_or_def)
  have s: "stage_of both_flags = ''rate_selection''"
    by (simp add: both_flags_def example_session_def stage_of_def get_or_def)
  have j: "list_index STAGE_ORDER (stage_of both_flags) = Inr 3"
    unfolding s by (simp add: STAGE_ORDER_def)
  have ok: "calculate_funnel_metrics ([] @ both_flags # []) \<noteq> Inl OverflowError"
    by (simp add: both_flags_def run_defs)
  note t = C10_completed_and_abandoned_both_counted [OF c a j ok]
  have z: "count_sessions P ([] @ []) = 0" for P
    by (simp add: count_sessions_def)
  from t have
    "metric (calculate_funnel_metrics ([] @ both_flags # [])) ''total_sessions'' = Some (IntV 1)"
    "metric (calculate_funnel_metrics ([] @ both_flags # [])) ''completed_sessions'' = Some (IntV 1)"
    "metric (calculate_funnel_metrics ([] @ both_flags # [])) ''abandoned_sessions'' = Some (IntV 1)"
    "int_entry (calculate_funnel_metrics ([] @ both_flags # [])) ''stage_abandonments''
       ''rate_selection'' = Some 1"
    unfolding z s by simp_all
  moreover from t have
    "int_entry (calculate_funnel_metrics ([] @ both_flags # [])) ''stage_completions''
       (STAGE_ORDER ! 3) = Some 1"
    "int_entry (calculate_funnel_metrics ([] @ both_flags # [])) ''stage_completions''
       (STAGE_ORDER ! 4) = Some 0"
    unfolding z by simp_all
  ultimately show ?thesis using c a j ok by simp
qed

section \<open>Abandonment reasons\<close>

lemma abandonment_body_reasons:
  "abandonment_reasons (abandonment_body t s) =
     (if get_or (is_abandoned s) False
      then dd_add (abandonment_reasons t) (reason_label (classify s)) 1
      else abandonment_reasons t)"
  by (simp add: abandonment_body_def classify_def Let_def)

lemma reason_label_inject: "reason_label c = reason_label c' \<longleftrightarrow> c = c'"
  by (cases c; cases c') simp_all

lemma abandonment_fold_reasons:
  "get_or (abandonment_reasons (foldl abandonment_body t ss) (reason_label c)) 0 =
     get_or (abandonment_reasons t (reason_label c)) 0 +
     count_sessions (\<lambda>s. get_or (is_abandoned s) False \<and> classify s = c) ss"
proof (induction ss arbitrary: t)
  case Nil
  then show ?case by (simp add: count_sessions_def)
next
  case (Cons s ss)
  have "get_or (abandonment_reasons (abandonment_body t s) (reason_label c)) 0 =
          get_or (abandonment_reasons t (reason_label c)) 0 +
          (if get_or (is_abandoned s) False \<and> classify s = c then 1 else 0)"
    by (simp add: abandonment_body_reasons dd_add_def reason_label_inject get_or_def)
  then show ?case
    using Cons.IH [of "abandonment_body t s"] by (simp add: count_sessions_def)
qed

text \<open>
  Claim C6. The count that \<^verbatim>\<open>display_abandonment_analysis\<close> keeps under the label of a
  category is the number of abandoned sessions that the priority order of the
  specification puts in that category (\<^const>\<open>classify\<close>: navigation backs above 3, else
  duration below 30, else events below 5, else the default). An abandoned session with
  no navigation back, 10 seconds and 2 events is counted under \<^verbatim>\<open>Quick Bounce\<close>
  and nowhere else.
\<close>

theorem C6_abandonment_reason_priority:
  "(\<forall>c. get_or (abandonment_reasons (abandonment_analysis ss) (reason_label c)) 0 =
          count_sessions (\<lambda>s. get_or (is_abandoned s) False \<and> classify s = c) ss) \<and>
   (is_abandoned s = Some True \<longrightarrow> navigation_backs s = Some 0 \<longrightarrow>
    duration_seconds s = Some 10 \<longrightarrow> total_events s = Some 2 \<longrightarrow>
      classify s = QuickBounce \<and>
      abandonment_reasons (abandonment_analysis [s]) = [''Quick Bounce'' \<mapsto> 1])"
proof -
  have "get_or (abandonment_reasons (abandonment_analysis ss) (reason_label c)) 0 =
          count_sessions (\<lambda>s. get_or (is_abandoned s) False \<and> classify s = c) ss" for c
    unfolding abandonment_analysis_def abandonment_fold_reasons by (simp add: get_or_def)
  moreover have "classify s = QuickBounce \<and>
      abandonment_reasons (abandonment_analysis [s]) = [''Quick Bounce'' \<mapsto> 1]"
    if "is_abandoned s = Some True" "navigation_backs s = Some 0"
      "duration_seconds s = Some 10" "total_events s = Some 2"
    using that
    by (simp add: classify_def abandonment_analysis_def abandonment_body_def Let_def dd_add_def
        get_or_def)
  ultimately show ?thesis by blast
qed

theorem C6_witness:
  "is_abandoned quick_session = Some True \<and> navigation_backs quick_session = Some 0 \<and>
   duration_seconds quick_session = Some 10 \<and> total_events quick_session = Some 2 \<and>
   classify quick_session = QuickBounce \<and>
   abandonment_reasons (abandonment_analysis [quick_session]) = [''Quick Bounce'' \<mapsto> 1] \<and>
   get_or (abandonment_reasons (abandonment_analysis [quick_session]) (reason_label QuickBounce)) 0 = 1 \<and>
   get_or (abandonment_reasons (abandonment_analysis [quick_session]) (reason_label LowEngagement)) 0 = 0"
proof -
  have f: "is_abandoned quick_session = Some True" "navigation_backs quick_session = Some 0"
    "duration_seconds quick_session = Some 10" "total_events quick_session = Some 2"
    by (simp_all add: quick_session_def example_session_def)
  note t = C6_abandonment_reason_priority [of "[quick_session]" quick_session]
  from t f have q: "classify quick_session = QuickBounce"
    and r: "abandonment_reasons (abandonment_analysis [quick_session]) = [''Quick Bounce'' \<mapsto> 1]"
    by blast+
  have "get_or (abandonment_reasons (abandonment_analysis [quick_session])
      (reason_label QuickBounce)) 0 = 1"
    using t [THEN conjunct1, rule_format, of QuickBounce]
    by (simp add: count_sessions_def f q get_or_def)
  moreover have "get_or (abandonment_reasons (abandonment_analysis [quick_session])
      (reason_label LowEngagement)) 0 = 0"
    using t [THEN conjunct1, rule_format, of LowEngagement]
    by (simp add: count_sessions_def f q get_or_def)
  ultimately have "get_or (abandonment_reasons (abandonment_analysis [quick_session])
      (reason_label QuickBounce)) 0 = 1 \<and>
      get_or (abandonment_reasons (abandonment_analysis [quick_session])
      (reason_label LowEngagement)) 0 = 0" by blast
  with f q r show ?thesis by blast
qed

section \<open>Sessions per property\<close>

lemma map_of_row_update:
  "map_of (row_update f k pm) =
     (map_of pm)(k \<mapsto> f (case map_of pm k of None \<Rightarrow> default_row | Some r \<Rightarrow> r))"
  by (induction pm) (auto simp: fun_eq_iff)

lemma keys_row_update:
  "map fst (row_update f k pm) = (if k \<in> fst ` set pm then map fst pm else map fst pm @ [k])"
proof (induction pm)
  case Nil
  then show ?case by simp
next
  case (Cons kr pm)
  obtain k' r where kr: "kr = (k', r)" by (cases kr)
  show ?case
  proof (cases "k' = k")
    case True
    then show ?thesis by (simp add: kr)
  next
    case False
    with Cons.IH show ?thesis by (simp add: kr)
  qed
qed

lemma distinct_row_update:
  "distinct (map fst pm) \<Longrightarrow> distinct (map fst (row_update f k pm))"
  by (simp add: keys_row_update)

lemma sum_row_update:
  assumes "\<And>r. sessions (f r) = sessions r + d"
  shows "session_count_sum (row_update f k pm) = session_count_sum pm + d"
  by (induction pm) (auto simp: session_count_sum_def assms default_row_def)

lemma count_row_update:
  assumes "\<And>r. sessions (f r) = sessions r + d"
  shows "session_count (row_update f k pm) p = session_count pm p + (if p = k then d else 0)"
  by (auto simp: session_count_def map_of_row_update assms default_row_def split: option.splits)

lemma property_body_effect:
  "session_count_sum (property_body pm s) = session_count_sum pm + 1"
  "session_count (property_body pm s) p =
     session_count pm p + (if p = get_or (property_id s) ''Unknown'' then 1 else 0)"
  "distinct (map fst pm) \<Longrightarrow> distinct (map fst (property_body pm s))"
  by (simp_all add: property_body_def Let_def sum_row_update [where d = 0]
      sum_row_update [where d = 1] count_row_update [where d = 0] count_row_update [where d = 1]
      distinct_row_update)

lemma property_fold:
  "session_count_sum (foldl property_body pm ss) = session_count_sum pm + int (length ss)"
  "session_count (foldl property_body pm ss) p =
     session_count pm p + count_sessions (\<lambda>s. get_or (property_id s) ''Unknown'' = p) ss"
  "distinct (map fst pm) \<Longrightarrow> distinct (map fst (foldl property_body pm ss))"
  by (induction ss arbitrary: pm, simp_all add: property_body_effect count_sessions_def)+

text \<open>
  Claim C9, as amended. The properties of the table of
  \<^verbatim>\<open>display_property_comparison\<close> are pairwise different, each holds the number of
  sessions with that \<^verbatim>\<open>property_id\<close> (\<^verbatim>\<open>'Unknown'\<close> for a session without one), and
  the counts sum to the number of sessions. For a non-empty session list on which
  \<^verbatim>\<open>calculate_funnel_metrics\<close> returns (it raises \<^verbatim>\<open>OverflowError\<close> only when a
  quotient leaves the range of the doubles), that sum is the \<^verbatim>\<open>total_sessions\<close> of its
  result.
\<close>

theorem C9_property_counts_sum_to_total:
  "session_count_sum (property_metrics ss) = int (length ss) \<and>
   distinct (map fst (property_metrics ss)) \<and>
   (\<forall>p. session_count (property_metrics ss) p =
         count_sessions (\<lambda>s. get_or (property_id s) ''Unknown'' = p) ss) \<and>
   (ss \<noteq> [] \<longrightarrow> calculate_funnel_metrics ss \<noteq> Inl OverflowError \<longrightarrow>
      metric (calculate_funnel_metrics ss) ''total_sessions'' =
        Some (IntV (session_count_sum (property_metrics ss))))"
proof -
  have "session_count_sum [] = 0"
    by (simp add: session_count_sum_def)
  then have s: "session_count_sum (property_metrics ss) = int (length ss)"
    by (simp add: property_metrics_def property_fold)
  moreover have "distinct (map fst (property_metrics ss))"
    by (simp add: property_metrics_def property_fold)
  moreover have "session_count (property_metrics ss) p =
      count_sessions (\<lambda>s. get_or (property_id s) ''Unknown'' = p) ss" for p
  proof -
    have "session_count [] p = 0" by (simp add: session_count_def)
    then show ?thesis by (simp add: property_metrics_def property_fold)
  qed
  moreover have "metric (calculate_funnel_metrics ss) ''total_sessions'' =
        Some (IntV (session_count_sum (property_metrics ss)))"
    if "ss \<noteq> []" "calculate_funnel_metrics ss \<noteq> Inl OverflowError"
    by (simp add: totals_nonempty [OF that] s)
  ultimately show ?thesis by blast
qed

theorem C9_witness:
  "three_completed \<noteq> [] \<and>
   calculate_funnel_metrics three_completed \<noteq> Inl OverflowError \<and>
   session_count_sum (property_metrics three_completed) = 3 \<and>
   metric (calculate_funnel_metrics three_completed) ''total_sessions'' = Some (IntV 3) \<and>
   session_count (property_metrics three_completed) ''hotel-a'' = 3"
proof -
  have n: "three_completed \<noteq> []" by (simp add: three_completed_def)
  have ok: "calculate_funnel_metrics three_completed \<noteq> Inl OverflowError"
    by (simp add: three_completed_def run_defs)
  have l: "int (length three_completed) = 3" by (simp add: three_completed_def)
  have c: "count_sessions (\<lambda>s. get_or (property_id s) ''Unknown'' = ''hotel-a'') three_completed = 3"
    by (simp add: three_completed_def example_session_def count_sessions_def get_or_def)
  note t = C9_property_counts_sum_to_total [of three_completed]
  from t l have s: "session_count_sum (property_metrics three_completed) = 3" by simp
  from t n ok s have m: "metric (calculate_funnel_metrics three_completed) ''total_sessions'' =
      Some (IntV 3)" by simp
  from t c have p: "session_count (property_metrics three_completed) ''hotel-a'' = 3" by simp
  from n ok s m p show ?thesis by blast
qed

text \<open>
  Claim C9 as stated covers every input. For the empty list the table is empty and its
  counts sum to 0, while \<^verbatim>\<open>calculate_funnel_metrics\<close> returns the empty dict, which
  holds no \<^verbatim>\<open>total_sessions\<close>.
\<close>

theorem C9_counterexample:
  "session_count_sum (property_metrics []) = 0 \<and>
   metric (calculate_funnel_metrics []) ''total_sessions'' = None \<and>
   metric (calculate_funnel_metrics []) ''total_sessions'' \<noteq>
     Some (IntV (session_count_sum (property_metrics [])))"
  by (simp add: property_metrics_def session_count_sum_def metric_empty)

end
